theory Spec2Isabelle
  imports Main
begin

section \<open>Regular expressions of the scraper\<close>

text \<open>
  The scrapers recognise e-mail addresses and GitHub URLs with two regular expression
  literals. Both are a sequence of pieces, each piece a literal, an optional literal
  or a greedy repetition of a character class, so that is the syntax modelled here.
  A string is a list of code units; the classes of the source are ASCII ranges.
\<close>

type_synonym char_class = "(char \<times> char) list"

datatype item =
    Lit string
  | Opt string
  | Rep char_class nat

record regex =
  items :: "item list"
  ignoreCase :: bool

text \<open>Canonicalisation under the \<open>i\<close> flag: an ASCII letter is compared in upper case.\<close>

definition code :: "char \<Rightarrow> nat" where
  "code c = of_char c"

definition to_upper :: "nat \<Rightarrow> nat" where
  "to_upper n = (if 97 \<le> n \<and> n \<le> 122 then n - 32 else n)"

definition to_lower :: "nat \<Rightarrow> nat" where
  "to_lower n = (if 65 \<le> n \<and> n \<le> 90 then n + 32 else n)"

definition char_eq :: "bool \<Rightarrow> char \<Rightarrow> char \<Rightarrow> bool" where
  "char_eq ci a c = (if ci then to_upper (code a) = to_upper (code c) else a = c)"

definition in_range :: "nat \<Rightarrow> char \<times> char \<Rightarrow> bool" where
  "in_range n r = (code (fst r) \<le> n \<and> n \<le> code (snd r))"

definition in_class :: "bool \<Rightarrow> char_class \<Rightarrow> char \<Rightarrow> bool" where
  "in_class ci rs c =
     (list_ex (in_range (code c)) rs \<or>
      (ci \<and> (list_ex (in_range (to_upper (code c))) rs \<or>
             list_ex (in_range (to_lower (code c))) rs)))"

text \<open>Does the subject start with the literal?\<close>

fun lit_match :: "bool \<Rightarrow> string \<Rightarrow> string \<Rightarrow> bool" where
  "lit_match ci [] s = True"
| "lit_match ci (a # l) [] = False"
| "lit_match ci (a # l) (c # s) = (char_eq ci a c \<and> lit_match ci l s)"

text \<open>The longest run of class characters at the start of the subject.\<close>

fun run_len :: "bool \<Rightarrow> char_class \<Rightarrow> string \<Rightarrow> nat" where
  "run_len ci rs [] = 0"
| "run_len ci rs (c # s) = (if in_class ci rs c then Suc (run_len ci rs s) else 0)"

text \<open>
  A greedy repetition takes the longest run first and gives characters back one at a
  time, never going under its minimum: the repetition counts to try, in order.
\<close>

fun counts :: "nat \<Rightarrow> nat \<Rightarrow> nat list" where
  "counts n 0 = (if n = 0 then [0] else [])"
| "counts n (Suc k) = (if n \<le> Suc k then Suc k # counts n k else [])"

fun first_some :: "('a \<Rightarrow> 'b option) \<Rightarrow> 'a list \<Rightarrow> 'b option" where
  "first_some f [] = None"
| "first_some f (x # xs) = (case f x of Some y \<Rightarrow> Some y | None \<Rightarrow> first_some f xs)"

lemma first_some_cong [fundef_cong]:
  "xs = ys \<Longrightarrow> (\<And>x. x \<in> set ys \<Longrightarrow> f x = g x) \<Longrightarrow> first_some f xs = first_some g ys"
  by (induction ys arbitrary: xs) (auto split: option.splits)

text \<open>
  The backtracking matcher at one start position. The result is the text each piece
  consumed, in order; \<open>None\<close> when no way to match exists there.
\<close>

fun m_items :: "bool \<Rightarrow> item list \<Rightarrow> string \<Rightarrow> string list option" where
  "m_items ci [] s = Some []"
| "m_items ci (Lit l # its) s =
     (if lit_match ci l s
      then map_option ((#) (take (length l) s)) (m_items ci its (drop (length l) s))
      else None)"
| "m_items ci (Opt l # its) s =
     (case (if lit_match ci l s
            then map_option ((#) (take (length l) s)) (m_items ci its (drop (length l) s))
            else None) of
        Some r \<Rightarrow> Some r
      | None \<Rightarrow> map_option ((#) []) (m_items ci its s))"
| "m_items ci (Rep rs n # its) s =
     first_some (\<lambda>k. map_option ((#) (take k s)) (m_items ci its (drop k s)))
       (counts n (run_len ci rs s))"

text \<open>
  A match: where it starts and what each piece consumed. \<open>match[0]\<close> is the whole
  matched text.
\<close>

record rmatch =
  index :: nat
  pieces :: "string list"

definition match0 :: "rmatch \<Rightarrow> string" where
  "match0 m = concat (pieces m)"

text \<open>The search for the leftmost start position, from offset \<open>i\<close> of the subject on.\<close>

fun scan :: "regex \<Rightarrow> string \<Rightarrow> nat \<Rightarrow> rmatch option" where
  "scan re [] i =
     (case m_items (ignoreCase re) (items re) [] of
        Some ps \<Rightarrow> Some \<lparr>index = i, pieces = ps\<rparr>
      | None \<Rightarrow> None)"
| "scan re (c # s) i =
     (case m_items (ignoreCase re) (items re) (c # s) of
        Some ps \<Rightarrow> Some \<lparr>index = i, pieces = ps\<rparr>
      | None \<Rightarrow> scan re s (Suc i))"

text \<open>
  \<open>RegExp.prototype.exec\<close> of a regular expression with the \<open>g\<close> flag (both
  literals of the source have it): the search starts at \<open>lastIndex\<close>; a match leaves
  \<open>lastIndex\<close> at its end, a failure resets it to 0. The result is the match and
  the new \<open>lastIndex\<close>.
\<close>

definition regexp_exec :: "regex \<Rightarrow> nat \<Rightarrow> string \<Rightarrow> rmatch option \<times> nat" where
  "regexp_exec re lastIndex str =
     (if length str < lastIndex then (None, 0)
      else case scan re (drop lastIndex str) lastIndex of
             None \<Rightarrow> (None, 0)
           | Some m \<Rightarrow> (Some m, index m + length (match0 m)))"


text \<open>What the matcher needs for the termination of the global match loop.\<close>

lemma first_some_Some: "first_some f xs = Some y \<Longrightarrow> \<exists>x\<in>set xs. f x = Some y"
  by (induction xs) (auto split: option.splits)

lemma first_some_None: "(first_some f xs = None) = (\<forall>x\<in>set xs. f x = None)"
  by (induction xs) (auto split: option.splits)

lemma first_some_mem: "x \<in> set xs \<Longrightarrow> f x \<noteq> None \<Longrightarrow> first_some f xs \<noteq> None"
  by (auto simp: first_some_None)

lemma mem_counts: "(k \<in> set (counts n r)) = (n \<le> k \<and> k \<le> r)"
proof (induction r)
  case 0
  show ?case by (cases "n = 0") simp_all
next
  case (Suc r)
  show ?case
  proof (cases "n \<le> Suc r")
    case True
    then show ?thesis using Suc by simp arith
  next
    case False
    then show ?thesis by simp
  qed
qed

lemma run_len_le: "run_len ci rs s \<le> length s"
  by (induction s) auto

lemma run_len_take: "k \<le> run_len ci rs s \<Longrightarrow> list_all (in_class ci rs) (take k s)"
proof (induction s arbitrary: k)
  case Nil
  then show ?case by simp
next
  case (Cons c s)
  then show ?case by (cases k) (auto split: if_splits)
qed

lemma run_len_append: "list_all (in_class ci rs) w \<Longrightarrow> length w \<le> run_len ci rs (w @ s)"
  by (induction w) auto

lemma lit_match_length: "lit_match ci l s \<Longrightarrow> length l \<le> length s"
  by (induction ci l s rule: lit_match.induct) auto

lemma lit_match_take: "lit_match ci l s \<Longrightarrow> lit_match ci l (take (length l) s)"
  by (induction ci l s rule: lit_match.induct) auto

lemma lit_match_append: "lit_match ci l w \<Longrightarrow> lit_match ci l (w @ s)"
  by (induction ci l w rule: lit_match.induct) auto

text \<open>The words a piece can consume, stated without the matcher.\<close>

fun item_lang :: "bool \<Rightarrow> item \<Rightarrow> string \<Rightarrow> bool" where
  "item_lang ci (Lit l) w = (length w = length l \<and> lit_match ci l w)"
| "item_lang ci (Opt l) w = (w = [] \<or> (length w = length l \<and> lit_match ci l w))"
| "item_lang ci (Rep rs n) w = (n \<le> length w \<and> list_all (in_class ci rs) w)"

lemma split_at: "drop k s = concat qs @ rest \<Longrightarrow> \<exists>r. s = concat (take k s # qs) @ r"
proof
  assume "drop k s = concat qs @ rest"
  then have "take k s @ concat qs @ rest = s"
    using append_take_drop_id [of k s] by simp
  then show "s = concat (take k s # qs) @ rest" by simp
qed

lemma m_items_sound:
  "m_items ci its s = Some ps \<Longrightarrow> list_all2 (item_lang ci) its ps \<and> (\<exists>rest. s = concat ps @ rest)"
proof (induction ci its s arbitrary: ps rule: m_items.induct)
  case (1 ci s)
  then show ?case by simp
next
  case (2 ci l its s)
  from "2.prems" obtain qs where l: "lit_match ci l s"
    and q: "m_items ci its (drop (length l) s) = Some qs" and ps: "ps = take (length l) s # qs"
    by (auto split: if_splits)
  from "2.IH" [OF l q] obtain rest where
    a: "list_all2 (item_lang ci) its qs" and r: "drop (length l) s = concat qs @ rest"
    by blast
  have "item_lang ci (Lit l) (take (length l) s)"
    using l by (simp add: lit_match_take lit_match_length min_absorb2)
  with a have la: "list_all2 (item_lang ci) (Lit l # its) (take (length l) s # qs)" by simp
  show ?case unfolding ps using la split_at [OF r] by (rule conjI)
next
  case (3 ci l its s)
  show ?case
  proof (cases "lit_match ci l s \<and> m_items ci its (drop (length l) s) \<noteq> None")
    case True
    then obtain qs where l: "lit_match ci l s"
      and q: "m_items ci its (drop (length l) s) = Some qs" by auto
    with "3.prems" have ps: "ps = take (length l) s # qs" by simp
    from "3.IH"(1) [OF l q] obtain rest where
      a: "list_all2 (item_lang ci) its qs" and r: "drop (length l) s = concat qs @ rest"
      by blast
    have "item_lang ci (Opt l) (take (length l) s)"
      using l by (simp add: lit_match_take lit_match_length min_absorb2)
    with a have la: "list_all2 (item_lang ci) (Opt l # its) (take (length l) s # qs)" by simp
    show ?thesis unfolding ps using la split_at [OF r] by (rule conjI)
  next
    case False
    then have n: "(if lit_match ci l s
            then map_option ((#) (take (length l) s)) (m_items ci its (drop (length l) s))
            else None) = None" by auto
    with "3.prems" obtain qs where q: "m_items ci its s = Some qs" and ps: "ps = [] # qs"
      by auto
    from "3.IH"(2) [OF n q] show ?thesis unfolding ps by simp
  qed
next
  case (4 ci rs n its s)
  from "4.prems" obtain k where k: "k \<in> set (counts n (run_len ci rs s))"
    and f: "map_option ((#) (take k s)) (m_items ci its (drop k s)) = Some ps"
    by (auto dest: first_some_Some)
  then obtain qs where q: "m_items ci its (drop k s) = Some qs" and ps: "ps = take k s # qs"
    by auto
  from "4.IH" [OF k q] obtain rest where
    a: "list_all2 (item_lang ci) its qs" and r: "drop k s = concat qs @ rest"
    by blast
  have kb: "n \<le> k" "k \<le> run_len ci rs s" using k by (auto simp: mem_counts)
  have "item_lang ci (Rep rs n) (take k s)"
    using kb run_len_le [of ci rs s] by (simp add: run_len_take min_absorb2)
  with a have la: "list_all2 (item_lang ci) (Rep rs n # its) (take k s # qs)" by simp
  show ?case unfolding ps using la split_at [OF r] by (rule conjI)
qed

lemma m_items_complete:
  "list_all2 (item_lang ci) its ps \<Longrightarrow> m_items ci its (concat ps @ rest) \<noteq> None"
proof (induction its arbitrary: ps rest)
  case Nil
  then show ?case by simp
next
  case (Cons it its)
  then obtain w qs where ps: "ps = w # qs" and w: "item_lang ci it w"
    and qs: "list_all2 (item_lang ci) its qs"
    by (auto simp: list_all2_Cons1)
  define t where "t = concat qs @ rest"
  have tl: "m_items ci its t \<noteq> None" unfolding t_def by (rule Cons.IH [OF qs])
  have s: "concat ps @ rest = w @ t" by (simp add: ps t_def)
  show ?case
  proof (cases it)
    case (Lit l)
    with w have "lit_match ci l (w @ t)" "length w = length l"
      by (auto intro: lit_match_append)
    then show ?thesis using tl unfolding s Lit by auto
  next
    case (Opt l)
    show ?thesis
    proof (cases "w = []")
      case True
      then show ?thesis using tl unfolding s Opt by (auto split: option.splits)
    next
      case False
      with w Opt have "lit_match ci l (w @ t)" "length w = length l"
        by (auto intro: lit_match_append)
      then show ?thesis using tl unfolding s Opt by (auto split: option.splits)
    qed
  next
    case (Rep rs n)
    with w have n: "n \<le> length w" and c: "list_all (in_class ci rs) w" by auto
    define f where "f = (\<lambda>k. map_option ((#) (take k (w @ t))) (m_items ci its (drop k (w @ t))))"
    have mem: "length w \<in> set (counts n (run_len ci rs (w @ t)))"
      using n run_len_append [OF c] by (simp add: mem_counts)
    have nz: "f (length w) \<noteq> None"
      using tl by (simp add: f_def)
    have "first_some f (counts n (run_len ci rs (w @ t))) \<noteq> None"
      using mem nz by (rule first_some_mem)
    then show ?thesis unfolding s Rep f_def by simp
  qed
qed

lemma scan_sound:
  "scan re s i = Some m \<Longrightarrow>
     \<exists>pre rest. s = pre @ match0 m @ rest \<and> index m = i + length pre \<and>
       m_items (ignoreCase re) (items re) (drop (length pre) s) = Some (pieces m) \<and>
       (\<forall>p < length pre. m_items (ignoreCase re) (items re) (drop p s) = None)"
proof (induction re s i rule: scan.induct)
  case (1 re i)
  then obtain ps where ps: "m_items (ignoreCase re) (items re) [] = Some ps"
    and m: "m = \<lparr>index = i, pieces = ps\<rparr>"
    by (auto split: option.splits)
  from m_items_sound [OF ps] have "concat ps = []" by auto
  then show ?case using ps m by (auto simp: match0_def)
next
  case (2 re c s i)
  show ?case
  proof (cases "m_items (ignoreCase re) (items re) (c # s)")
    case None
    with "2.prems" have sc: "scan re s (Suc i) = Some m" by simp
    from "2.IH" [OF None sc] obtain pre rest where
      a: "s = pre @ match0 m @ rest" and b: "index m = Suc i + length pre"
      and c: "m_items (ignoreCase re) (items re) (drop (length pre) s) = Some (pieces m)"
      and d: "\<forall>p < length pre. m_items (ignoreCase re) (items re) (drop p s) = None"
      by blast
    have e: "\<forall>p < length (c # pre). m_items (ignoreCase re) (items re) (drop p (c # s)) = None"
    proof (intro allI impI)
      fix p assume "p < length (c # pre)"
      then show "m_items (ignoreCase re) (items re) (drop p (c # s)) = None"
        using None d by (cases p) auto
    qed
    have "c # s = (c # pre) @ match0 m @ rest" using a by simp
    moreover have "index m = i + length (c # pre)" using b by simp
    moreover have "m_items (ignoreCase re) (items re) (drop (length (c # pre)) (c # s)) = Some (pieces m)"
      using c by simp
    ultimately show ?thesis using e by blast
  next
    case (Some ps)
    with "2.prems" have m: "m = \<lparr>index = i, pieces = ps\<rparr>" by simp
    from m_items_sound [OF Some] obtain rest where "c # s = concat ps @ rest" by blast
    then have "c # s = [] @ match0 m @ rest" by (simp add: m match0_def)
    moreover have "index m = i + length ([]::string)" by (simp add: m)
    moreover have "m_items (ignoreCase re) (items re) (drop (length ([]::string)) (c # s)) = Some (pieces m)"
      using Some m by simp
    moreover have "\<forall>p < length ([]::string). m_items (ignoreCase re) (items re) (drop p (c # s)) = None"
      by simp
    ultimately show ?thesis by blast
  qed
qed

lemma scan_None:
  "scan re s i = None \<Longrightarrow> p \<le> length s \<Longrightarrow> m_items (ignoreCase re) (items re) (drop p s) = None"
proof (induction re s i arbitrary: p rule: scan.induct)
  case (1 re i)
  then show ?case by (auto split: option.splits)
next
  case (2 re c s i)
  then show ?case by (cases p) (auto split: option.splits)
qed

lemma regexp_exec_Some:
  assumes "regexp_exec re li str = (Some m, e)"
  shows "li \<le> index m" and "e = index m + length (match0 m)" and "e \<le> length str"
    and "li \<le> length str"
proof -
  from assms have le: "li \<le> length str" and sc: "scan re (drop li str) li = Some m"
    and e: "e = index m + length (match0 m)"
    by (auto simp: regexp_exec_def split: if_splits option.splits)
  from scan_sound [OF sc] obtain pre rest where
    a: "drop li str = pre @ match0 m @ rest" and b: "index m = li + length pre"
    by blast
  have "length (drop li str) = length pre + length (match0 m) + length rest"
    by (simp add: a)
  then have "li + length pre + length (match0 m) \<le> length str" using le by simp
  then show "e \<le> length str" using e b by simp
  show "li \<le> index m" using b by simp
  show "e = index m + length (match0 m)" by (rule e)
  show "li \<le> length str" by (rule le)
qed

lemma regexp_exec_advance:
  assumes "regexp_exec re li str = (Some m, e)"
  shows "Suc (length str) - (if match0 m = [] then Suc e else e) < Suc (length str) - li"
proof -
  note f = regexp_exec_Some [OF assms]
  show ?thesis
  proof (cases "match0 m = []")
    case True
    then show ?thesis using f by simp
  next
    case False
    then have "0 < length (match0 m)" by simp
    with f(1) f(2) have "li < e" by linarith
    with f(3) show ?thesis using False by simp
  qed
qed

function match_loop :: "regex \<Rightarrow> string \<Rightarrow> nat \<Rightarrow> string list" where
  "match_loop re str lastIndex =
     (case regexp_exec re lastIndex str of
        (None, e) \<Rightarrow> []
      | (Some m, e) \<Rightarrow> match0 m # match_loop re str (if match0 m = [] then Suc e else e))"
  by pat_completeness auto
termination
proof (relation "measure (\<lambda>(re, str, lastIndex). Suc (length str) - lastIndex)")
  show "wf (measure (\<lambda>(re, str, lastIndex). Suc (length str) - lastIndex))" by simp
next
  fix re :: regex and str lastIndex x1 x2 m
  assume "(x1, x2) = regexp_exec re lastIndex str" and "x1 = Some m"
  then have ex: "regexp_exec re lastIndex str = (Some m, x2)" by simp
  show "((re, str, if match0 m = [] then Suc x2 else x2), re, str, lastIndex)
        \<in> measure (\<lambda>(re, str, lastIndex). Suc (length str) - lastIndex)"
    using regexp_exec_advance [OF ex] by simp
qed

declare match_loop.simps [simp del]

text \<open>
  \<open>String.prototype.match\<close> with a global regular expression: every match from
  \<open>lastIndex = 0\<close> on, an empty match stepping one code unit forward; \<open>null\<close> when
  there is none.
\<close>

definition string_match :: "regex \<Rightarrow> string \<Rightarrow> string list option" where
  "string_match re str = (case match_loop re str 0 of [] \<Rightarrow> None | m # ms \<Rightarrow> Some (m # ms))"

section \<open>E-mail extraction (index.js, puppeteer-scraper.js)\<close>

definition local_class :: char_class where
  "local_class = [(CHR ''a'', CHR ''z''), (CHR ''A'', CHR ''Z''), (CHR ''0'', CHR ''9''),
     (CHR ''.'', CHR ''.''), (CHR ''_'', CHR ''_''), (CHR ''%'', CHR ''%''),
     (CHR ''+'', CHR ''+''), (CHR ''-'', CHR ''-'')]"

definition domain_class :: char_class where
  "domain_class = [(CHR ''a'', CHR ''z''), (CHR ''A'', CHR ''Z''), (CHR ''0'', CHR ''9''),
     (CHR ''.'', CHR ''.''), (CHR ''-'', CHR ''-'')]"

definition alpha_class :: char_class where
  "alpha_class = [(CHR ''a'', CHR ''z''), (CHR ''A'', CHR ''Z'')]"

text \<open>\<^verbatim>\<open>/[a-zA-Z0-9._%+-]+@[a-zA-Z0-9.-]+\.[a-zA-Z]{2,}/g\<close>\<close>

definition emailRegex :: regex where
  "emailRegex =
     \<lparr>items = [Rep local_class 1, Lit ''@'', Rep domain_class 1, Lit ''.'', Rep alpha_class 2],
      ignoreCase = False\<rparr>"

text \<open>\<^verbatim>\<open>text.match(emailRegex) || []\<close>\<close>

definition extractEmails :: "string \<Rightarrow> string list" where
  "extractEmails str = (case string_match emailRegex str of None \<Rightarrow> [] | Some ms \<Rightarrow> ms)"

section \<open>Sets, truthiness, substrings\<close>

text \<open>
  A JavaScript \<open>Set\<close> of strings keeps its elements in insertion order and ignores the
  insertion of an element it has: a list without repetition, new elements at the end.
  \<open>Array.from\<close> of the set is that list.
\<close>

definition set_add :: "string \<Rightarrow> string list \<Rightarrow> string list" where
  "set_add x xs = (if x \<in> set xs then xs else xs @ [x])"

definition add_all :: "string list \<Rightarrow> string list \<Rightarrow> string list" where
  "add_all xs store = foldl (\<lambda>s x. set_add x s) store xs"

text \<open>A value that may be \<open>null\<close> or \<open>undefined\<close>; the empty string is falsy too.\<close>

definition truthy :: "string option \<Rightarrow> bool" where
  "truthy v = (case v of None \<Rightarrow> False | Some s \<Rightarrow> s \<noteq> [])"

fun starts_with :: "string \<Rightarrow> string \<Rightarrow> bool" where
  "starts_with s [] = True"
| "starts_with [] (b # sub) = False"
| "starts_with (c # s) (b # sub) = (c = b \<and> starts_with s sub)"

text \<open>\<open>String.prototype.includes\<close>\<close>

fun str_includes :: "string \<Rightarrow> string \<Rightarrow> bool" where
  "str_includes [] sub = (sub = [])"
| "str_includes (c # s) sub = (starts_with (c # s) sub \<or> str_includes s sub)"

section \<open>GitHub usernames on Upwork profiles (upwork-scraper.js)\<close>

definition user_class :: char_class where
  "user_class = [(CHR ''a'', CHR ''z''), (CHR ''A'', CHR ''Z''), (CHR ''0'', CHR ''9''),
     (CHR ''_'', CHR ''_''), (CHR ''-'', CHR ''-'')]"

text \<open>
  \<^verbatim>\<open>/https?:\/\/(?:www\.)?github\.com\/([a-zA-Z0-9_-]+)/gi\<close>. The capture group is the
  last piece, piece 5. The literal is one object of the module: its \<open>lastIndex\<close> is
  state that every function of the module shares, passed explicitly here.
\<close>

definition githubUrlRegex :: regex where
  "githubUrlRegex =
     \<lparr>items = [Lit ''http'', Opt ''s'', Lit ''://'', Opt ''www.'', Lit ''github.com/'',
               Rep user_class 1],
      ignoreCase = True\<rparr>"

definition group1 :: "rmatch \<Rightarrow> string" where
  "group1 m = (case drop 5 (pieces m) of [] \<Rightarrow> [] | p # ps \<Rightarrow> p)"

text \<open>
  The argument is \<open>None\<close> for \<open>null\<close> or \<open>undefined\<close>. The result is the username
  (\<open>None\<close> for \<open>null\<close>) and the \<open>lastIndex\<close> the call leaves behind.
\<close>

definition extractGitHubUsername :: "nat \<Rightarrow> string option \<Rightarrow> string option \<times> nat" where
  "extractGitHubUsername lastIndex url =
     (if \<not> truthy url then (None, lastIndex)
      else case regexp_exec githubUrlRegex 0 (the url) of
             (None, li) \<Rightarrow> (None, li)
           | (Some m, li) \<Rightarrow> if group1 m \<noteq> [] then (Some (group1 m), li) else (None, li))"

text \<open>A failure of a request (a rejected promise) carries the HTTP status, if any.\<close>

datatype error = Error (status: "nat option")

datatype 'a response = Failed error | Got 'a

text \<open>
  What cheerio selects on a profile page: the text of the three sections, and the
  \<open>href\<close> attribute (possibly absent) of every anchor in the portfolio, social and
  external link regions.
\<close>

record profile_page =
  profileText :: string
  portfolioText :: string
  experienceText :: string
  linkHrefs :: "string option list"

text \<open>
  The Upwork site: whether \<open>upwork-cookies.json\<close> can be loaded, the \<open>href\<close>s of the
  profile anchors of each search page, and the page of each profile URL.
\<close>

record upwork_site =
  cookiesFile :: bool
  searchPage :: "nat \<Rightarrow> string option list response"
  profilePage :: "string \<Rightarrow> profile_page response"

text \<open>
  The \<open>while ((match = githubUrlRegex.exec(fullText)) !== null)\<close> loop of
  \<open>scrapeUpworkProfile\<close>. The loop and \<open>extractGitHubUsername\<close> use the same
  regular expression object, so the call in the body moves the loop's \<open>lastIndex\<close>.
  The loop need not end: not returning is \<open>None\<close>.
\<close>

partial_function (option) text_scan :: "string \<Rightarrow> nat \<Rightarrow> string list \<Rightarrow> (string list \<times> nat) option" where
  "text_scan fullText lastIndex names =
     (case regexp_exec githubUrlRegex lastIndex fullText of
        (None, li) \<Rightarrow> Some (names, li)
      | (Some m, li) \<Rightarrow>
          (case extractGitHubUsername li (Some (match0 m)) of
             (None, li') \<Rightarrow> text_scan fullText li' names
           | (Some username, li') \<Rightarrow> text_scan fullText li' (set_add username names)))"

fun link_scan :: "string option list \<Rightarrow> nat \<Rightarrow> string list \<Rightarrow> string list \<times> nat" where
  "link_scan [] lastIndex names = (names, lastIndex)"
| "link_scan (href # hs) lastIndex names =
     (case extractGitHubUsername lastIndex href of
        (None, li) \<Rightarrow> link_scan hs li names
      | (Some username, li) \<Rightarrow> link_scan hs li (set_add username names))"

definition scrapeUpworkProfile :: "upwork_site \<Rightarrow> string \<Rightarrow> nat \<Rightarrow> (string list \<times> nat) option" where
  "scrapeUpworkProfile w profileUrl lastIndex =
     (case profilePage w profileUrl of
        Failed e \<Rightarrow> Some ([], lastIndex)
      | Got page \<Rightarrow>
          (case text_scan (profileText page @ '' '' @ portfolioText page @ '' '' @
                            experienceText page) lastIndex [] of
             None \<Rightarrow> None
           | Some (names, li) \<Rightarrow> Some (link_scan (linkHrefs page) li names)))"

fun scrape_each :: "upwork_site \<Rightarrow> string list \<Rightarrow> nat \<Rightarrow> string list \<Rightarrow> (string list \<times> nat) option" where
  "scrape_each w [] lastIndex githubUsernames = Some (githubUsernames, lastIndex)"
| "scrape_each w (profileUrl # us) lastIndex githubUsernames =
     (case scrapeUpworkProfile w profileUrl lastIndex of
        None \<Rightarrow> None
      | Some (usernames, li) \<Rightarrow> scrape_each w us li (githubUsernames @ usernames))"

definition profile_links :: "string option list \<Rightarrow> string list" where
  "profile_links hrefs = map (\<lambda>h. ''https://www.upwork.com'' @ the h) (filter truthy hrefs)"

definition searchUpworkProfiles :: "upwork_site \<Rightarrow> nat \<Rightarrow> nat \<Rightarrow> (string list \<times> nat) option" where
  "searchUpworkProfiles w page lastIndex =
     (if \<not> cookiesFile w then Some ([], lastIndex)
      else case searchPage w page of
             Failed e \<Rightarrow> Some ([], lastIndex)
           | Got hrefs \<Rightarrow> scrape_each w (profile_links hrefs) lastIndex [])"

text \<open>
  The page loop of \<open>findGitHubAccountsFromUpwork\<close>; the result also tells the page the
  loop stopped at. With \<open>maxPages = 0\<close> nothing bounds the loop.
\<close>

partial_function (option) crawl_loop :: "upwork_site \<Rightarrow> int \<Rightarrow> nat \<Rightarrow> nat \<Rightarrow> string list \<Rightarrow> (string list \<times> nat \<times> nat) option" where
  "crawl_loop w maxPages page lastIndex allUsernames =
     (if 0 < maxPages \<and> maxPages < int page then Some (allUsernames, page, lastIndex)
      else case searchUpworkProfiles w page lastIndex of
             None \<Rightarrow> None
           | Some (usernames, li) \<Rightarrow>
               if length usernames = 0 then Some (allUsernames, page, li)
               else crawl_loop w maxPages (page + 1) li (add_all usernames allUsernames))"

definition findGitHubAccountsFromUpwork :: "upwork_site \<Rightarrow> int \<Rightarrow> nat \<Rightarrow> (string list \<times> nat) option" where
  "findGitHubAccountsFromUpwork w maxPages lastIndex =
     (case crawl_loop w maxPages 1 lastIndex [] of
        None \<Rightarrow> None
      | Some (allUsernames, page, li) \<Rightarrow> Some (allUsernames, li))"

section \<open>The GitHub harvester (index.js)\<close>

text \<open>
  What the program reads of the responses of the GitHub API. A repository is its owner's
  login and its name. Of an event the program reads \<open>type\<close> and
  \<open>payload?.commits?.[0]?.author?.email\<close>; of a commit \<open>author?.email\<close> and
  \<open>committer?.email\<close>; of a user \<open>email\<close>; of a README its decoded content.
\<close>

record event =
  eventType :: string
  firstCommitEmail :: "string option"

record commit_data =
  authorEmail :: "string option"
  committerEmail :: "string option"

record github_api =
  search_repos :: "nat \<Rightarrow> (string \<times> string) list response"
  repos_getReadme :: "string \<Rightarrow> string \<Rightarrow> string response"
  repos_listContributors :: "string \<Rightarrow> string \<Rightarrow> string list response"
  users_getByUsername :: "string \<Rightarrow> string option response"
  activity_listPublicEventsForUser :: "string \<Rightarrow> event list response"
  repos_listCommits :: "string \<Rightarrow> string \<Rightarrow> string list response"
  git_getCommit :: "string \<Rightarrow> string \<Rightarrow> string \<Rightarrow> commit_data response"
  repos_listForUser :: "string \<Rightarrow> (string \<times> string) list response"

text \<open>
  A file holds the JSON value that \<open>JSON.stringify\<close> serialised. The state of the
  program is the module's \<open>emailSet\<close> and the files of its directory.
\<close>

datatype json = JString string | JArray "json list" | JObject "(string \<times> json) list"

record state =
  emailSet :: "string list"
  files :: "string \<rightharpoonup> json"

text \<open>
  An \<open>async\<close> function changes the state and returns or throws. What it changed before
  it threw stays changed.
\<close>

datatype 'a outcome = Returned 'a | Threw error

type_synonym 'a js = "state \<Rightarrow> 'a outcome \<times> state"

definition ret :: "'a \<Rightarrow> 'a js" where
  "ret x = (\<lambda>st. (Returned x, st))"

definition await :: "'a response \<Rightarrow> 'a js" where
  "await r = (\<lambda>st. case r of Failed e \<Rightarrow> (Threw e, st) | Got v \<Rightarrow> (Returned v, st))"

definition then_do :: "'a js \<Rightarrow> ('a \<Rightarrow> 'b js) \<Rightarrow> 'b js" where
  "then_do m f = (\<lambda>st. case m st of (Returned x, st') \<Rightarrow> f x st' | (Threw e, st') \<Rightarrow> (Threw e, st'))"

definition try_catch :: "'a js \<Rightarrow> (error \<Rightarrow> 'a js) \<Rightarrow> 'a js" where
  "try_catch m h = (\<lambda>st. case m st of (Returned x, st') \<Rightarrow> (Returned x, st') | (Threw e, st') \<Rightarrow> h e st')"

fun for_each :: "'a list \<Rightarrow> ('a \<Rightarrow> unit js) \<Rightarrow> unit js" where
  "for_each [] f = ret ()"
| "for_each (x # xs) f = then_do (f x) (\<lambda>u. for_each xs f)"

definition emailSet_add :: "string \<Rightarrow> unit js" where
  "emailSet_add e = (\<lambda>st. (Returned (), st\<lparr>emailSet := set_add e (emailSet st)\<rparr>))"

definition emailSet_clear :: "unit js" where
  "emailSet_clear = (\<lambda>st. (Returned (), st\<lparr>emailSet := []\<rparr>))"

definition emailSet_array :: "string list js" where
  "emailSet_array = (\<lambda>st. (Returned (emailSet st), st))"

definition noreply :: string where
  "noreply = ''noreply.github.com''"

text \<open>\<^verbatim>\<open>if (email && !email.includes('noreply.github.com')) emailSet.add(email)\<close>\<close>

definition add_unless_noreply :: "string option \<Rightarrow> unit js" where
  "add_unless_noreply e =
     (if truthy e \<and> \<not> str_includes (the e) noreply then emailSet_add (the e) else ret ())"

definition checkReadmeForEmails :: "github_api \<Rightarrow> string \<Rightarrow> string \<Rightarrow> unit js" where
  "checkReadmeForEmails api owner repo =
     try_catch
       (then_do (await (repos_getReadme api owner repo)) (\<lambda>content.
          for_each (extractEmails content) (\<lambda>e. emailSet_add e)))
       (\<lambda>error. ret ())"

definition getUserEvents :: "github_api \<Rightarrow> string \<Rightarrow> unit js" where
  "getUserEvents api username =
     try_catch
       (then_do (await (activity_listPublicEventsForUser api username)) (\<lambda>events.
          for_each events (\<lambda>ev.
            if eventType ev = ''PushEvent'' then add_unless_noreply (firstCommitEmail ev)
            else ret ())))
       (\<lambda>error. ret ())"

definition getContributorEmails :: "github_api \<Rightarrow> string \<Rightarrow> unit js" where
  "getContributorEmails api username =
     try_catch
       (then_do (await (users_getByUsername api username)) (\<lambda>user_email.
        then_do (if truthy user_email then emailSet_add (the user_email) else ret ()) (\<lambda>u.
          getUserEvents api username)))
       (\<lambda>error. ret ())"

definition getContributors :: "github_api \<Rightarrow> string \<Rightarrow> string \<Rightarrow> unit js" where
  "getContributors api owner repo =
     try_catch
       (then_do (await (repos_listContributors api owner repo)) (\<lambda>contributors.
          for_each contributors (\<lambda>login. getContributorEmails api login)))
       (\<lambda>error. ret ())"

definition checkCommits :: "github_api \<Rightarrow> string \<Rightarrow> string \<Rightarrow> unit js" where
  "checkCommits api owner repo =
     try_catch
       (then_do (await (repos_listCommits api owner repo)) (\<lambda>commits.
          for_each commits (\<lambda>sha.
            then_do (await (git_getCommit api owner repo sha)) (\<lambda>commitData.
            then_do (add_unless_noreply (authorEmail commitData)) (\<lambda>u.
              add_unless_noreply (committerEmail commitData))))))
       (\<lambda>error. ret ())"

definition processRepository :: "github_api \<Rightarrow> string \<Rightarrow> string \<Rightarrow> unit js" where
  "processRepository api owner repo =
     try_catch
       (then_do (checkReadmeForEmails api owner repo) (\<lambda>u.
        then_do (getContributors api owner repo) (\<lambda>u.
          checkCommits api owner repo)))
       (\<lambda>error. ret ())"

definition getUserRepositories :: "github_api \<Rightarrow> string \<Rightarrow> unit js" where
  "getUserRepositories api username =
     try_catch
       (then_do (await (repos_listForUser api username)) (\<lambda>repos.
          for_each repos (\<lambda>r. processRepository api (fst r) (snd r))))
       (\<lambda>error. ret ())"

definition processGitHubUser :: "github_api \<Rightarrow> string \<Rightarrow> bool js" where
  "processGitHubUser api username =
     try_catch
       (then_do (getContributorEmails api username) (\<lambda>u.
        then_do (getUserRepositories api username) (\<lambda>u.
          ret True)))
       (\<lambda>error. ret False)"

text \<open>\<^verbatim>\<open>fs.writeFileSync(outputPath, JSON.stringify(emails, null, 2))\<close>\<close>

definition saveEmails :: "string \<Rightarrow> string list js" where
  "saveEmails filename =
     (\<lambda>st. (Returned (emailSet st),
            st\<lparr>files := (files st)(filename \<mapsto> JArray (map JString (emailSet st)))\<rparr>))"

definition default_filename :: string where
  "default_filename = ''javascript-developer-emails.json''"

function searchJavaScriptRepos :: "github_api \<Rightarrow> nat \<Rightarrow> unit js" where
  "searchJavaScriptRepos api page =
     try_catch
       (then_do (await (search_repos api page)) (\<lambda>repos.
        then_do (for_each repos (\<lambda>r. processRepository api (fst r) (snd r))) (\<lambda>u.
          if 0 < length repos \<and> page < 100 then searchJavaScriptRepos api (page + 1)
          else then_do (saveEmails default_filename) (\<lambda>emails. ret ()))))
       (\<lambda>error.
          if status error = Some 403 then then_do (saveEmails default_filename) (\<lambda>emails. ret ())
          else ret ())"
  by pat_completeness auto
termination
  by (relation "measure (\<lambda>(api, page). 100 - page)") auto

declare searchJavaScriptRepos.simps [simp del]

definition searchJavaScriptDevelopers :: "github_api \<Rightarrow> string list js" where
  "searchJavaScriptDevelopers api =
     then_do emailSet_clear (\<lambda>u.
     then_do (searchJavaScriptRepos api 1) (\<lambda>u.
       emailSet_array))"

text \<open>The loop of \<open>findEmailsFromUpworkDevelopers\<close> that counts the successes.\<close>

fun count_successes :: "github_api \<Rightarrow> string list \<Rightarrow> nat \<Rightarrow> nat js" where
  "count_successes api [] successCount = ret successCount"
| "count_successes api (username # us) successCount =
     then_do (processGitHubUser api username) (\<lambda>success.
       count_successes api us (if success then successCount + 1 else successCount))"

text \<open>
  The marketplace mode. The crawl may not return (\<open>None\<close>); when it does, the result is
  what the harvest returns, the state, and the \<open>lastIndex\<close> of the scraper module.
\<close>

definition findEmailsFromUpworkDevelopers ::
    "upwork_site \<Rightarrow> github_api \<Rightarrow> int \<Rightarrow> nat \<Rightarrow> state \<Rightarrow> ((string list outcome \<times> state) \<times> nat) option" where
  "findEmailsFromUpworkDevelopers w api maxPages lastIndex st =
     (case emailSet_clear st of
        (cleared, st0) \<Rightarrow>
          (case findGitHubAccountsFromUpwork w maxPages lastIndex of
             None \<Rightarrow> None
           | Some (githubUsernames, li) \<Rightarrow>
               Some (then_do (count_successes api githubUsernames 0) (\<lambda>successCount.
                       saveEmails ''fullstack-developer-emails.json'') st0, li)))"

definition main ::
    "upwork_site \<Rightarrow> github_api \<Rightarrow> string \<Rightarrow> int \<Rightarrow> nat \<Rightarrow> state \<Rightarrow> ((string list outcome \<times> state) \<times> nat) option" where
  "main w api mode maxPages lastIndex st =
     (if mode = ''upwork'' then findEmailsFromUpworkDevelopers w api maxPages lastIndex st
      else Some (searchJavaScriptDevelopers api st, lastIndex))"

section \<open>The browser scraper (puppeteer-scraper.js)\<close>

text \<open>
  What the browser shows of GitHub: the \<open>mailto:\<close> addresses of a profile, the links
  of its first three repositories, and the text of a repository's README (\<open>None\<close> when
  the repository page has no README link). A navigation that throws is \<open>Failed\<close>.
\<close>

record github_pages =
  profileMailtos :: "string \<Rightarrow> string list response"
  repositoryLinks :: "string \<Rightarrow> string list response"
  readmeText :: "string \<Rightarrow> string option response"

record email_entry =
  email :: string
  source :: string

record scraper_state =
  emailData :: "email_entry list"
  processedGithubUrls :: "string list"
  outputs :: "string \<rightharpoonup> json"

definition repo_emails :: "github_pages \<Rightarrow> string \<Rightarrow> email_entry list" where
  "repo_emails b repoUrl =
     (case readmeText b repoUrl of
        Failed e \<Rightarrow> []
      | Got None \<Rightarrow> []
      | Got (Some readmeContent) \<Rightarrow>
          map (\<lambda>e. \<lparr>email = e, source = repoUrl @ '' (README)''\<rparr>)
            (filter (\<lambda>e. \<not> str_includes e noreply) (extractEmails readmeContent)))"

definition scrapeGitHubProfile :: "github_pages \<Rightarrow> string \<Rightarrow> scraper_state \<Rightarrow> email_entry list \<times> scraper_state" where
  "scrapeGitHubProfile b githubUrl st =
     (if githubUrl \<in> set (processedGithubUrls st) then ([], st)
      else let st' = st\<lparr>processedGithubUrls := set_add githubUrl (processedGithubUrls st)\<rparr> in
        case profileMailtos b githubUrl of
          Failed e \<Rightarrow> ([], st')
        | Got profileEmails \<Rightarrow>
            (case repositoryLinks b githubUrl of
               Failed e \<Rightarrow> ([], st')
             | Got repoLinks \<Rightarrow>
                 (map (\<lambda>e. \<lparr>email = e, source = githubUrl @ '' (Profile)''\<rparr>) profileEmails @
                  concat (map (repo_emails b) repoLinks), st')))"

definition entry_json :: "email_entry \<Rightarrow> json" where
  "entry_json e = JObject [(''email'', JString (email e)), (''source'', JString (source e))]"

text \<open>
  \<open>main\<close> of the browser scraper from the GitHub URLs that \<open>scrapeUpworkProfiles\<close>
  returned on: every profile is scraped, its entries pushed onto \<open>emailData\<close>, and
  \<open>emailData\<close> written.
\<close>

definition scrape_all :: "github_pages \<Rightarrow> string list \<Rightarrow> scraper_state \<Rightarrow> scraper_state" where
  "scrape_all b githubUrls st =
     foldl (\<lambda>s url. case scrapeGitHubProfile b url s of
                       (emails, s') \<Rightarrow> s'\<lparr>emailData := emailData s' @ emails\<rparr>) st githubUrls"

definition puppeteer_main :: "github_pages \<Rightarrow> string list \<Rightarrow> scraper_state \<Rightarrow> scraper_state" where
  "puppeteer_main b githubUrls st =
     (let st' = scrape_all b githubUrls st
      in st'\<lparr>outputs := (outputs st')(''fullstack-developer-emails.json'' \<mapsto>
                 JArray (map entry_json (emailData st')))\<rparr>)"

section \<open>Notions the properties are stated with\<close>

text \<open>The elements of a list in the order of their first occurrence.\<close>

fun first_seen :: "string list \<Rightarrow> string list" where
  "first_seen [] = []"
| "first_seen (y # ys) = y # filter (\<lambda>x. x \<noteq> y) (first_seen ys)"

text \<open>
  A sequence of calls of \<open>extractGitHubUsername\<close>, each starting from the \<open>lastIndex\<close>
  the call before left: the results in order.
\<close>

fun call_sequence :: "nat \<Rightarrow> string option list \<Rightarrow> string option list" where
  "call_sequence lastIndex [] = []"
| "call_sequence lastIndex (url # urls) =
     (case extractGitHubUsername lastIndex url of
        (r, li) \<Rightarrow> r # call_sequence li urls)"


text \<open>
  A GitHub URL, in the words of the specification: the scheme \<open>http\<close> or \<open>https\<close>,
  \<open>://\<close>, optionally \<open>www.\<close>, the host \<open>github.com\<close>, a slash and a username of
  one or more characters of \<open>[a-zA-Z0-9_-]\<close>; scheme, \<open>www.\<close> and host in any case.
  A text has a GitHub URL when such a URL stands somewhere in it.
\<close>

definition same_ignoring_case :: "string \<Rightarrow> string \<Rightarrow> bool" where
  "same_ignoring_case l w = list_all2 (char_eq True) l w"

definition is_username :: "string \<Rightarrow> bool" where
  "is_username u = (u \<noteq> [] \<and> list_all (in_class False user_class) u)"

definition github_url_parts :: "string \<Rightarrow> string \<Rightarrow> string \<Rightarrow> string \<Rightarrow> bool" where
  "github_url_parts scheme www host user =
     ((same_ignoring_case ''http'' scheme \<or> same_ignoring_case ''https'' scheme) \<and>
      (www = [] \<or> same_ignoring_case ''www.'' www) \<and>
      same_ignoring_case ''github.com'' host \<and>
      is_username user)"

definition has_github_url :: "string \<Rightarrow> bool" where
  "has_github_url url =
     (\<exists>pre scheme www host user rest.
        url = pre @ scheme @ ''://'' @ www @ host @ ''/'' @ user @ rest \<and>
        github_url_parts scheme www host user)"

text \<open>
  The shape of an e-mail address, in the words of the specification: a local part of
  letters, digits and \<open>. _ % + -\<close>, an \<open>@\<close>, a domain of letters, digits, \<open>.\<close> and
  \<open>-\<close>, a dot, and a final label of at least two letters. A text has an e-mail when
  some substring of it has that shape.
\<close>

definition email_shape :: "string \<Rightarrow> bool" where
  "email_shape w =
     (\<exists>l d t. w = l @ ''@'' @ d @ ''.'' @ t \<and>
        l \<noteq> [] \<and> list_all (in_class False local_class) l \<and>
        d \<noteq> [] \<and> list_all (in_class False domain_class) d \<and>
        2 \<le> length t \<and> list_all (in_class False alpha_class) t)"

definition has_email :: "string \<Rightarrow> bool" where
  "has_email s = (\<exists>a w b. s = a @ w @ b \<and> email_shape w)"

text \<open>
  The matches of a left-to-right scan, in the words of the specification made exact. An
  e-mail starts a text when a prefix of the text has the e-mail shape; the longest e-mail
  at the start of a text is the longest such prefix. A list of matches is the
  leftmost-longest cut of a text when the first match is the longest e-mail at the first
  position of the text where an e-mail starts, the next match is found in the same way in
  what follows the first match, and what follows the last match has no e-mail.
\<close>

definition email_prefix :: "string \<Rightarrow> string \<Rightarrow> bool" where
  "email_prefix s w = (email_shape w \<and> (\<exists>r. s = w @ r))"

definition longest_email :: "string \<Rightarrow> string \<Rightarrow> bool" where
  "longest_email s m = (email_prefix s m \<and> (\<forall>w. email_prefix s w \<longrightarrow> length w \<le> length m))"

definition no_email_starts_in :: "string \<Rightarrow> string \<Rightarrow> bool" where
  "no_email_starts_in g s = (\<forall>a b. g = a @ b \<and> b \<noteq> [] \<longrightarrow> \<not> (\<exists>w. email_prefix (b @ s) w))"

fun leftmost_longest :: "string \<Rightarrow> string list \<Rightarrow> bool" where
  "leftmost_longest s [] = (\<not> has_email s)"
| "leftmost_longest s (m # ms) =
     (\<exists>g rest. s = g @ m @ rest \<and> no_email_starts_in g (m @ rest) \<and>
        longest_email (m @ rest) m \<and> leftmost_longest rest ms)"

text \<open>
  A text cut into gaps and matches: the first gap, the first match, the second gap, and
  so on to the last gap.
\<close>

fun interleave :: "string list \<Rightarrow> string list \<Rightarrow> string" where
  "interleave [] ms = []"
| "interleave (g # gs) [] = g"
| "interleave (g # gs) (m # ms) = g @ m @ interleave gs ms"

text \<open>A JSON array whose elements are all \<open>{email, source}\<close> objects with string values.\<close>

fun is_email_record :: "json \<Rightarrow> bool" where
  "is_email_record (JObject [(k1, JString e), (k2, JString s)]) = (k1 = ''email'' \<and> k2 = ''source'')"
| "is_email_record j = False"

fun is_record_array :: "json \<Rightarrow> bool" where
  "is_record_array (JArray js) = list_all is_email_record js"
| "is_record_array j = False"

text \<open>A computation that leaves every file as it is.\<close>

definition keeps_files :: "'a js \<Rightarrow> bool" where
  "keeps_files m = (\<forall>st. files (snd (m st)) = files st)"

text \<open>
  The \<open>catch\<close> block of \<open>searchJavaScriptRepos\<close>.
\<close>

definition on_error :: "error \<Rightarrow> unit js" where
  "on_error e = (if status e = Some 403 then then_do (saveEmails default_filename) (\<lambda>emails. ret ())
                 else ret ())"

text \<open>
  The control flow of \<open>searchJavaScriptRepos\<close> without its effects: the page at which
  the pagination started at \<open>page\<close> ends, which is the first page whose search fails,
  comes back empty or has the number 100. The run writes the output file when that page
  was searched successfully (the \<open>else\<close> branch calls \<open>saveEmails\<close>) or its search
  failed with status 403 (the \<open>catch\<close> block calls \<open>saveEmails\<close>); on any other
  failure it writes nothing.
\<close>

function final_page :: "github_api \<Rightarrow> nat \<Rightarrow> nat" where
  "final_page api page =
     (case search_repos api page of
        Failed e \<Rightarrow> page
      | Got repos \<Rightarrow> if 0 < length repos \<and> page < 100 then final_page api (page + 1) else page)"
  by pat_completeness auto
termination
  by (relation "measure (\<lambda>(api, page). 100 - page)") auto

declare final_page.simps [simp del]


definition run_writes :: "github_api \<Rightarrow> nat \<Rightarrow> bool" where
  "run_writes api page =
     (case search_repos api (final_page api page) of
        Failed e \<Rightarrow> status e = Some 403
      | Got repos \<Rightarrow> True)"

section \<open>Concrete responses of the GitHub API\<close>

text \<open>
  An API with one repository \<open>octo/demo\<close> on every search page before \<open>failingPage\<close>,
  where the search is refused with status 403. The repository has the given README, one
  contributor with the given profile e-mail, one push event and one commit with the given
  commit e-mail.
\<close>

definition demo_api :: "string \<Rightarrow> string option \<Rightarrow> string option \<Rightarrow> nat \<Rightarrow> github_api" where
  "demo_api readme profileEmail commitEmail failingPage =
     \<lparr>search_repos = (\<lambda>page. if page < failingPage then Got [(''octo'', ''demo'')]
                               else Failed (Error (Some 403))),
      repos_getReadme = (\<lambda>owner repo. Got readme),
      repos_listContributors = (\<lambda>owner repo. Got [''octo'']),
      users_getByUsername = (\<lambda>username. Got profileEmail),
      activity_listPublicEventsForUser = (\<lambda>username.
        Got [\<lparr>eventType = ''PushEvent'', firstCommitEmail = commitEmail\<rparr>]),
      repos_listCommits = (\<lambda>owner repo. Got [''c0ffee'']),
      git_getCommit = (\<lambda>owner repo sha. Got \<lparr>authorEmail = commitEmail, committerEmail = None\<rparr>),
      repos_listForUser = (\<lambda>username. Failed (Error (Some 404)))\<rparr>"

definition noreply_api :: github_api where
  "noreply_api = demo_api ''Reach me: 1234+octo@users.noreply.github.com''
     (Some ''octo@users.noreply.github.com'') (Some ''9+dev@users.noreply.github.com'') 2"


section \<open>Concrete Upwork sites\<close>

text \<open>
  The profile of the project's test: the overview ends with the sentence that names the
  GitHub account, after some introduction; the portfolio anchor and the social anchor
  link to GitHub. The site has that one profile on its first search page.
\<close>

definition mock_profile :: "string \<Rightarrow> profile_page" where
  "mock_profile intro =
     \<lparr>profileText = intro @ ''Check out my GitHub: https://github.com/mockuser'',
      portfolioText = ''Project 1'',
      experienceText = [],
      linkHrefs = [Some ''https://github.com/mockuser/project1'', Some ''https://github.com/mockuser2'']\<rparr>"

definition mock_site :: "string \<Rightarrow> upwork_site" where
  "mock_site intro =
     \<lparr>cookiesFile = True,
      searchPage = (\<lambda>page. if page = 1 then Got [Some ''/freelancers/~01''] else Got []),
      profilePage = (\<lambda>url. Got (mock_profile intro))\<rparr>"

text \<open>
  A site with one profile on each of its first two search pages: the first profile names
  no GitHub account, the second links to one.
\<close>

definition plain_profile :: profile_page where
  "plain_profile =
     \<lparr>profileText = ''Full-stack developer, Node.js and React'',
      portfolioText = [],
      experienceText = [],
      linkHrefs = [Some ''https://linkedin.com/in/devone'']\<rparr>"

definition github_profile :: profile_page where
  "github_profile =
     \<lparr>profileText = ''Backend developer'',
      portfolioText = [],
      experienceText = [],
      linkHrefs = [Some ''https://github.com/devtwo'']\<rparr>"

definition two_page_site :: upwork_site where
  "two_page_site =
     \<lparr>cookiesFile = True,
      searchPage = (\<lambda>page. if page = 1 then Got [Some ''/freelancers/~01'']
                           else if page = 2 then Got [Some ''/freelancers/~02''] else Got []),
      profilePage = (\<lambda>url. if url = ''https://www.upwork.com/freelancers/~02''
                            then Got github_profile else Got plain_profile)\<rparr>"

section \<open>Properties\<close>

subsection \<open>The deduplication store\<close>

lemma add_all_Cons: "add_all (y # ys) store = add_all ys (set_add y store)"
  by (simp add: add_all_def)

lemma add_all_first_seen:
  "add_all ys store = store @ filter (\<lambda>y. y \<notin> set store) (first_seen ys)"
proof (induction ys arbitrary: store)
  case Nil
  then show ?case by (simp add: add_all_def)
next
  case (Cons y ys)
  show ?case
  proof (cases "y \<in> set store")
    case True
    have "filter (\<lambda>x. x \<notin> set store) (filter (\<lambda>x. x \<noteq> y) (first_seen ys))
          = filter (\<lambda>x. x \<notin> set store) (first_seen ys)"
      using True by (auto intro: filter_cong)
    then show ?thesis using True by (simp add: add_all_Cons Cons.IH set_add_def)
  next
    case False
    have "filter (\<lambda>x. x \<notin> set (store @ [y])) (first_seen ys)
          = filter (\<lambda>x. x \<notin> set store) (filter (\<lambda>x. x \<noteq> y) (first_seen ys))"
      by (auto intro: filter_cong)
    then show ?thesis using False by (simp add: add_all_Cons Cons.IH set_add_def)
  qed
qed

lemma set_first_seen: "set (first_seen ys) = set ys"
  by (induction ys) auto

lemma distinct_first_seen: "distinct (first_seen ys)"
  by (induction ys) (auto simp: set_first_seen)

lemma first_seen_distinct: "distinct ys \<Longrightarrow> first_seen ys = ys"
  by (induction ys) (auto simp: set_first_seen filter_id_conv)

lemma for_each_add:
  "for_each ys emailSet_add st = (Returned (), st\<lparr>emailSet := add_all ys (emailSet st)\<rparr>)"
proof (induction ys arbitrary: st)
  case Nil
  show ?case by (simp add: ret_def add_all_def)
next
  case (Cons y ys)
  have "emailSet_add y st = (Returned (), st\<lparr>emailSet := set_add y (emailSet st)\<rparr>)"
    by (simp add: emailSet_add_def)
  then show ?case by (simp add: then_do_def Cons.IH add_all_Cons)
qed

text \<open>
  Claim C9. The store is the module's \<open>emailSet\<close>, and an insert is \<open>emailSet.add\<close>.
  Inserting an identifier twice gives the state that inserting it once gives. Inserting an
  identifier the store has changes nothing; inserting one it lacks appends it to the
  enumeration, and a second insert of it leaves the size at one more, not two. After the
  store is cleared, any sequence of inserts leaves as enumeration the inserted identifiers
  in the order of their first occurrence, without repetition, which is what \<open>saveEmails\<close>
  then writes and returns; after the inserts of \<open>N\<close> distinct identifiers
  \<open>Array.from(emailSet)\<close> is those \<open>N\<close> identifiers in insertion order.
\<close>

theorem dedup_store:
  "emailSet_add x (snd (emailSet_add x st)) = emailSet_add x st
   \<and> (x \<in> set (emailSet st) \<longrightarrow> emailSet_add x st = (Returned (), st))
   \<and> (x \<notin> set (emailSet st) \<longrightarrow>
        emailSet (snd (emailSet_add x st)) = emailSet st @ [x] \<and>
        length (emailSet (snd (emailSet_add x (snd (emailSet_add x st))))) = length (emailSet st) + 1)
   \<and> for_each ys emailSet_add (snd (emailSet_clear st)) = (Returned (), st\<lparr>emailSet := first_seen ys\<rparr>)
   \<and> then_do (for_each ys emailSet_add) (\<lambda>u. saveEmails f) (snd (emailSet_clear st))
       = (Returned (first_seen ys),
          st\<lparr>emailSet := first_seen ys,
             files := (files st)(f \<mapsto> JArray (map JString (first_seen ys)))\<rparr>)
   \<and> distinct (first_seen ys) \<and> set (first_seen ys) = set ys
   \<and> (distinct ys \<longrightarrow>
        fst (then_do (for_each ys emailSet_add) (\<lambda>u. emailSet_array) (snd (emailSet_clear st)))
          = Returned ys)"
proof -
  have a: "emailSet_add x s = (Returned (), s\<lparr>emailSet := set_add x (emailSet s)\<rparr>)" for s
    by (simp add: emailSet_add_def)
  show ?thesis
    by (simp add: a emailSet_clear_def emailSet_array_def set_add_def for_each_add
        then_do_def saveEmails_def add_all_first_seen distinct_first_seen set_first_seen
        first_seen_distinct)
qed

theorem dedup_store_witness:
  "''c@d.io'' \<in> set (emailSet \<lparr>emailSet = [''c@d.io''], files = Map.empty\<rparr>)
   \<and> emailSet_add ''c@d.io'' \<lparr>emailSet = [''c@d.io''], files = Map.empty\<rparr>
       = (Returned (), \<lparr>emailSet = [''c@d.io''], files = Map.empty\<rparr>)
   \<and> ''a@b.co'' \<notin> set (emailSet \<lparr>emailSet = [''c@d.io''], files = Map.empty\<rparr>)
   \<and> emailSet (snd (emailSet_add ''a@b.co'' \<lparr>emailSet = [''c@d.io''], files = Map.empty\<rparr>))
       = [''c@d.io'', ''a@b.co'']
   \<and> length (emailSet (snd (emailSet_add ''a@b.co''
         (snd (emailSet_add ''a@b.co'' \<lparr>emailSet = [''c@d.io''], files = Map.empty\<rparr>))))) = 2
   \<and> then_do (for_each [''a@b.co'', ''c@d.io'', ''a@b.co''] emailSet_add)
         (\<lambda>u. saveEmails ''out.json'')
         (snd (emailSet_clear \<lparr>emailSet = [''c@d.io''], files = Map.empty\<rparr>))
       = (Returned [''a@b.co'', ''c@d.io''],
          \<lparr>emailSet = [''a@b.co'', ''c@d.io''],
           files = [''out.json'' \<mapsto> JArray [JString ''a@b.co'', JString ''c@d.io'']]\<rparr>)
   \<and> distinct [''a@b.co'', ''c@d.io'']
   \<and> fst (then_do (for_each [''a@b.co'', ''c@d.io''] emailSet_add) (\<lambda>u. emailSet_array)
         (snd (emailSet_clear \<lparr>emailSet = [''c@d.io''], files = Map.empty\<rparr>)))
       = Returned [''a@b.co'', ''c@d.io'']"
  using dedup_store [of "''c@d.io''" "\<lparr>emailSet = [''c@d.io''], files = Map.empty\<rparr>"
          "[''a@b.co'', ''c@d.io'', ''a@b.co'']" "''out.json''"]
        dedup_store [of "''a@b.co''" "\<lparr>emailSet = [''c@d.io''], files = Map.empty\<rparr>"
          "[''a@b.co'', ''c@d.io'']" "''out.json''"]
  by simp


subsection \<open>No state leaks between calls of the username extractor\<close>

lemma extract_stateless: "fst (extractGitHubUsername li url) = fst (extractGitHubUsername 0 url)"
  by (simp add: extractGitHubUsername_def)

lemmas github_eval = regexp_exec_def githubUrlRegex_def user_class_def in_class_def in_range_def code_def
    char_eq_def to_upper_def to_lower_def match0_def extractGitHubUsername_def truthy_def group1_def set_add_def

text \<open>
  Claim C8. Whatever \<open>lastIndex\<close> earlier calls left, the result of a call of
  \<open>extractGitHubUsername\<close> is the result on a fresh regular expression: over any sequence
  of calls each result depends on that call's argument only. A matching URL, a URL of
  another host and the matching URL again give the username, \<open>null\<close> and the username.
\<close>

theorem extract_no_leak:
  "call_sequence li urls = map (\<lambda>url. fst (extractGitHubUsername 0 url)) urls
   \<and> call_sequence li [Some ''https://github.com/johndoe'', Some ''https://linkedin.com/in/johndoe'',
        Some ''https://github.com/johndoe'']
      = [Some ''johndoe'', None, Some ''johndoe'']"
proof
  show "call_sequence li urls = map (\<lambda>url. fst (extractGitHubUsername 0 url)) urls"
  proof (induction urls arbitrary: li)
    case Nil
    show ?case by simp
  next
    case (Cons url urls)
    show ?case using extract_stateless [of li url]
      by (cases "extractGitHubUsername li url") (simp add: Cons.IH)
  qed
  show "call_sequence li [Some ''https://github.com/johndoe'', Some ''https://linkedin.com/in/johndoe'',
        Some ''https://github.com/johndoe'']
      = [Some ''johndoe'', None, Some ''johndoe'']"
    by (simp add: github_eval)
qed

subsection \<open>Failures of the harvester are caught where they occur\<close>

lemma catch_unit: "fst (try_catch m (\<lambda>error. ret ()) st) = Returned ()"
  by (cases "m st") (auto simp: try_catch_def ret_def split: outcome.splits)

lemma getContributorEmails_returns: "fst (getContributorEmails api username st) = Returned ()"
  unfolding getContributorEmails_def by (rule catch_unit)

lemma getUserRepositories_returns: "fst (getUserRepositories api username st) = Returned ()"
  unfolding getUserRepositories_def by (rule catch_unit)

lemma processGitHubUser_true: "fst (processGitHubUser api username st) = Returned True"
proof -
  obtain s1 where a: "getContributorEmails api username st = (Returned (), s1)"
    using getContributorEmails_returns [of api username st]
    by (cases "getContributorEmails api username st") simp
  obtain s2 where b: "getUserRepositories api username s1 = (Returned (), s2)"
    using getUserRepositories_returns [of api username s1]
    by (cases "getUserRepositories api username s1") simp
  show ?thesis
    by (simp add: processGitHubUser_def try_catch_def then_do_def a b ret_def)
qed

lemma count_successes_all:
  "fst (count_successes api usernames n st) = Returned (n + length usernames)"
proof (induction usernames arbitrary: n st)
  case Nil
  show ?case by (simp add: ret_def)
next
  case (Cons username us)
  obtain s1 where a: "processGitHubUser api username st = (Returned True, s1)"
    using processGitHubUser_true [of api username st]
    by (cases "processGitHubUser api username st") simp
  show ?case by (simp add: then_do_def a Cons.IH)
qed

text \<open>
  Claim C10. \<open>processGitHubUser\<close> returns \<open>true\<close> for every username, API and state:
  \<open>getContributorEmails\<close> and \<open>getUserRepositories\<close> catch every failure themselves
  and return, so the \<open>catch\<close> branch that returns \<open>false\<close> is never taken, and the
  success count of the marketplace mode is the number of usernames processed.
\<close>

theorem processGitHubUser_always_true:
  "fst (processGitHubUser api username st) = Returned True
   \<and> fst (getContributorEmails api username st) = Returned ()
   \<and> fst (getUserRepositories api username st) = Returned ()
   \<and> fst (count_successes api usernames 0 st) = Returned (length usernames)"
  using processGitHubUser_true [of api username st] count_successes_all [of api usernames 0 st]
  by (simp add: getContributorEmails_returns getUserRepositories_returns)

theorem processGitHubUser_always_true_witness:
  "fst (processGitHubUser noreply_api ''octo'' \<lparr>emailSet = [], files = Map.empty\<rparr>) = Returned True
   \<and> fst (count_successes noreply_api [''octo'', ''ghost''] 0 \<lparr>emailSet = [], files = Map.empty\<rparr>)
       = Returned 2"
  using processGitHubUser_always_true [of noreply_api "''octo''"
      "\<lparr>emailSet = [], files = Map.empty\<rparr>" "[''octo'', ''ghost'']"]
  by simp

subsection \<open>A refused search saves what was collected\<close>


lemmas email_eval = extractEmails_def string_match_def match_loop.simps regexp_exec_def emailRegex_def
  local_class_def domain_class_def alpha_class_def in_class_def in_range_def code_def char_eq_def match0_def

lemma ex3: "extractEmails ''ann@x.io, bob@y.org; cy@z.net'' = [''ann@x.io'', ''bob@y.org'', ''cy@z.net'']"
  by (simp add: email_eval)

lemmas js_eval = try_catch_def then_do_def await_def ret_def emailSet_add_def add_unless_noreply_def truthy_def
  set_add_def noreply_def saveEmails_def emailSet_clear_def emailSet_array_def

lemma repo3:
  "processRepository (demo_api ''ann@x.io, bob@y.org; cy@z.net'' None None 2) ''octo'' ''demo''
     \<lparr>emailSet = [], files = fs\<rparr>
   = (Returned (), \<lparr>emailSet = [''ann@x.io'', ''bob@y.org'', ''cy@z.net''], files = fs\<rparr>)"
  by (simp add: processRepository_def checkReadmeForEmails_def getContributors_def getContributorEmails_def
      getUserEvents_def checkCommits_def demo_api_def ex3 js_eval)





subsection \<open>The no-reply filter\<close>

text \<open>The event and commit paths drop an address that contains the no-reply domain.\<close>

lemma commit_paths_filter:
  "str_includes e noreply \<Longrightarrow> add_unless_noreply (Some e) st = (Returned (), st)"
  by (simp add: add_unless_noreply_def ret_def)

lemma ex_noreply:
  "extractEmails ''Reach me: 1234+octo@users.noreply.github.com'' = [''1234+octo@users.noreply.github.com'']"
  by (simp add: email_eval)

lemma repo_noreply:
  "processRepository noreply_api ''octo'' ''demo'' \<lparr>emailSet = [], files = fs\<rparr>
   = (Returned (), \<lparr>emailSet = [''1234+octo@users.noreply.github.com'', ''octo@users.noreply.github.com''],
        files = fs\<rparr>)"
  by (simp add: processRepository_def checkReadmeForEmails_def getContributors_def getContributorEmails_def
      getUserEvents_def checkCommits_def demo_api_def noreply_api_def ex_noreply js_eval)

text \<open>
  Claim C1 does not hold of the program. The README path and the profile path insert
  into \<open>emailSet\<close> without the no-reply test that the event and commit paths make: a
  no-reply address of a README and one of a profile reach the output file, while the
  no-reply address of the commits is dropped.
\<close>

theorem noreply_reaches_output:
  "searchJavaScriptDevelopers noreply_api \<lparr>emailSet = [], files = Map.empty\<rparr>
     = (Returned [''1234+octo@users.noreply.github.com'', ''octo@users.noreply.github.com''],
        \<lparr>emailSet = [''1234+octo@users.noreply.github.com'', ''octo@users.noreply.github.com''],
         files = [default_filename \<mapsto> JArray [JString ''1234+octo@users.noreply.github.com'',
                    JString ''octo@users.noreply.github.com'']]\<rparr>)
   \<and> str_includes ''1234+octo@users.noreply.github.com'' noreply
   \<and> str_includes ''octo@users.noreply.github.com'' noreply"
proof -
  have f: "search_repos noreply_api 2 = Failed (Error (Some 403))"
    by (simp add: demo_api_def noreply_api_def)
  have g: "search_repos noreply_api (Suc 0) = Got [(''octo'', ''demo'')]"
    by (simp add: demo_api_def noreply_api_def)
  have f': "search_repos noreply_api (Suc (Suc 0)) = Failed (Error (Some 403))"
    using f by (simp only: numeral_2_eq_2 [symmetric])
  have p2: "searchJavaScriptRepos noreply_api (Suc (Suc 0)) st
       = (Returned (), st\<lparr>files := (files st)(default_filename \<mapsto>
                                 JArray (map JString (emailSet st)))\<rparr>)" for st
    by (subst searchJavaScriptRepos.simps)
       (simp add: f' try_catch_def then_do_def await_def saveEmails_def ret_def)
  have p1: "searchJavaScriptRepos noreply_api (Suc 0) \<lparr>emailSet = [], files = Map.empty\<rparr>
       = (Returned (), \<lparr>emailSet = [''1234+octo@users.noreply.github.com'', ''octo@users.noreply.github.com''],
         files = [default_filename \<mapsto> JArray [JString ''1234+octo@users.noreply.github.com'',
                    JString ''octo@users.noreply.github.com'']]\<rparr>)"
    by (subst searchJavaScriptRepos.simps)
       (simp add: g repo_noreply p2 try_catch_def then_do_def await_def ret_def)
  show ?thesis
    by (simp add: searchJavaScriptDevelopers_def then_do_def emailSet_clear_def emailSet_array_def p1
        noreply_def)
qed

subsection \<open>The text loop of a profile visit\<close>

text \<open>
  When the call of \<open>extractGitHubUsername\<close> in the loop body leaves \<open>lastIndex\<close> where
  the search of the loop started, the loop finds the same match again, for ever.
\<close>

lemma text_scan_stuck:
  assumes ex: "regexp_exec githubUrlRegex k fullText = (Some m, e)"
    and again: "extractGitHubUsername e (Some (match0 m)) = (Some u, k)"
  shows "text_scan fullText k names = None"
proof (rule ccontr)
  assume "text_scan fullText k names \<noteq> None"
  then obtain y where y: "text_scan fullText k names = Some y" by auto
  have "\<not> (fullText = fullText \<and> k = k)"
  proof (rule text_scan.raw_induct
      [where P = "\<lambda>t li names y. \<not> (t = fullText \<and> li = k)", OF _ y])
    fix f t lastIndex names y
    assume ih: "\<And>t lastIndex names y. f t lastIndex names = Some y \<Longrightarrow> \<not> (t = fullText \<and> lastIndex = k)"
      and body: "(case regexp_exec githubUrlRegex lastIndex t of
        (None, li) \<Rightarrow> Some (names, li)
      | (Some m, li) \<Rightarrow>
          (case extractGitHubUsername li (Some (match0 m)) of
             (None, li') \<Rightarrow> f t li' names
           | (Some username, li') \<Rightarrow> f t li' (set_add username names))) = Some y"
    show "\<not> (t = fullText \<and> lastIndex = k)"
    proof
      assume "t = fullText \<and> lastIndex = k"
      with body have "f fullText k (set_add u names) = Some y"
        by (simp add: ex again)
      from ih [OF this] show False by simp
    qed
  qed
  then show False by simp
qed

text \<open>
  Claim C2 does not hold of the program. With the GitHub URL at the start of the
  sentence of the test (offset 21 of the text, less than the 27 code units of the URL)
  \<open>scrapeUpworkProfile\<close> returns \<open>mockuser\<close> and \<open>mockuser2\<close>. With ten more
  characters in front of the sentence the text loop never ends, and the function does
  not return.
\<close>

theorem text_loop_never_ends:
  "scrapeUpworkProfile (mock_site ''Hi there. '') ''https://www.upwork.com/freelancers/~01'' 0 = None
   \<and> scrapeUpworkProfile (mock_site []) ''https://www.upwork.com/freelancers/~01'' 0
       = Some ([''mockuser'', ''mockuser2''], 28)"
proof
  let ?t = "''Hi there. Check out my GitHub: https://github.com/mockuser Project 1 ''"
  let ?m = "\<lparr>index = 31, pieces = [''http'', ''s'', ''://'', [], ''github.com/'', ''mockuser'']\<rparr>"
  have a0: "regexp_exec githubUrlRegex 0 ?t = (Some ?m, 58)"
    by (simp add: github_eval)
  have a27: "regexp_exec githubUrlRegex 27 ?t = (Some ?m, 58)"
    by (simp add: github_eval)
  have b: "extractGitHubUsername 58 (Some (match0 ?m)) = (Some ''mockuser'', 27)"
    by (simp add: github_eval)
  have "text_scan ?t 27 [''mockuser''] = None"
    using a27 b by (rule text_scan_stuck)
  then have "text_scan ?t 0 [] = None"
    by (subst text_scan.simps) (simp add: a0 b set_add_def)
  then show "scrapeUpworkProfile (mock_site ''Hi there. '') ''https://www.upwork.com/freelancers/~01'' 0 = None"
    by (simp add: scrapeUpworkProfile_def mock_site_def mock_profile_def)
  show "scrapeUpworkProfile (mock_site []) ''https://www.upwork.com/freelancers/~01'' 0
       = Some ([''mockuser'', ''mockuser2''], 28)"
    by (simp add: scrapeUpworkProfile_def mock_site_def mock_profile_def text_scan.simps github_eval)
qed

subsection \<open>When the crawl stops\<close>

text \<open>
  The crawl stops at the ceiling, at a page whose fetch fails, and at a page without
  profile links.
\<close>

lemma crawl_stops_at_ceiling:
  "0 < maxPages \<Longrightarrow> maxPages < int page \<Longrightarrow>
     crawl_loop w maxPages page li allUsernames = Some (allUsernames, page, li)"
  by (subst crawl_loop.simps) simp

lemma crawl_stops_on_failed_page:
  "\<not> (0 < maxPages \<and> maxPages < int page) \<Longrightarrow> searchPage w page = Failed e \<Longrightarrow>
     crawl_loop w maxPages page li allUsernames = Some (allUsernames, page, li)"
  by (subst crawl_loop.simps) (auto simp: searchUpworkProfiles_def)

lemma crawl_stops_on_empty_page:
  "\<not> (0 < maxPages \<and> maxPages < int page) \<Longrightarrow> searchPage w page = Got [] \<Longrightarrow>
     crawl_loop w maxPages page li allUsernames = Some (allUsernames, page, li)"
  by (subst crawl_loop.simps) (auto simp: searchUpworkProfiles_def profile_links_def)

text \<open>
  Claim C5 does not hold of the program. The crawl stops at the first page that yields no
  GitHub username, whether or not the page has profile links: here page 1 has a profile
  link, no ceiling is set, page 2 would yield \<open>devtwo\<close>, and the crawl stops at page 1
  with nothing.
\<close>

theorem crawl_stops_on_profiles_without_usernames:
  "searchPage two_page_site 1 = Got [Some ''/freelancers/~01'']
   \<and> searchUpworkProfiles two_page_site 2 0 = Some ([''devtwo''], 25)
   \<and> crawl_loop two_page_site 0 1 0 [] = Some ([], 1, 0)
   \<and> findGitHubAccountsFromUpwork two_page_site 0 0 = Some ([], 0)"
proof -
  have p1: "searchUpworkProfiles two_page_site (Suc 0) 0 = Some ([], 0)"
    by (simp add: searchUpworkProfiles_def two_page_site_def profile_links_def
        scrapeUpworkProfile_def plain_profile_def text_scan.simps github_eval)
  have p2: "searchUpworkProfiles two_page_site 2 0 = Some ([''devtwo''], 25)"
    by (simp add: searchUpworkProfiles_def two_page_site_def profile_links_def
        scrapeUpworkProfile_def github_profile_def text_scan.simps github_eval)
  have c: "crawl_loop two_page_site 0 (Suc 0) 0 [] = Some ([], Suc 0, 0)"
    by (subst crawl_loop.simps) (simp add: p1)
  show ?thesis using p2 c
    by (simp add: findGitHubAccountsFromUpwork_def two_page_site_def)
qed

subsection \<open>The shape of the output files\<close>

lemma keeps_ret: "keeps_files (ret x)"
  by (simp add: keeps_files_def ret_def)

lemma keeps_await: "keeps_files (await r)"
  by (simp add: keeps_files_def await_def split: response.splits)

lemma keeps_add: "keeps_files (emailSet_add e)"
  by (simp add: keeps_files_def emailSet_add_def)

lemma keeps_then_do: "keeps_files m \<Longrightarrow> (\<And>x. keeps_files (f x)) \<Longrightarrow> keeps_files (then_do m f)"
  unfolding keeps_files_def then_do_def
  by (auto split: prod.splits outcome.splits) (metis snd_conv)+

lemma keeps_try_catch: "keeps_files m \<Longrightarrow> (\<And>e. keeps_files (h e)) \<Longrightarrow> keeps_files (try_catch m h)"
  unfolding keeps_files_def try_catch_def
  by (auto split: prod.splits outcome.splits) (metis snd_conv)+

lemma keeps_for_each: "(\<And>x. keeps_files (f x)) \<Longrightarrow> keeps_files (for_each xs f)"
  by (induction xs) (auto intro: keeps_ret keeps_then_do)

lemma keeps_if: "keeps_files a \<Longrightarrow> keeps_files b \<Longrightarrow> keeps_files (if c then a else b)"
  by simp

lemmas keeps = keeps_ret keeps_await keeps_add keeps_then_do keeps_try_catch keeps_for_each keeps_if

lemma keeps_add_unless: "keeps_files (add_unless_noreply e)"
  unfolding add_unless_noreply_def by (intro keeps)

lemma keeps_checkReadme: "keeps_files (checkReadmeForEmails api owner repo)"
  unfolding checkReadmeForEmails_def by (intro keeps)

lemma keeps_getUserEvents: "keeps_files (getUserEvents api username)"
  unfolding getUserEvents_def by (intro keeps keeps_add_unless)

lemma keeps_getContributorEmails: "keeps_files (getContributorEmails api username)"
  unfolding getContributorEmails_def by (intro keeps keeps_getUserEvents)

lemma keeps_getContributors: "keeps_files (getContributors api owner repo)"
  unfolding getContributors_def by (intro keeps keeps_getContributorEmails)

lemma keeps_checkCommits: "keeps_files (checkCommits api owner repo)"
  unfolding checkCommits_def by (intro keeps keeps_add_unless)

lemma keeps_processRepository: "keeps_files (processRepository api owner repo)"
  unfolding processRepository_def
  by (intro keeps keeps_checkReadme keeps_getContributors keeps_checkCommits)

lemma keeps_getUserRepositories: "keeps_files (getUserRepositories api username)"
  unfolding getUserRepositories_def by (intro keeps keeps_processRepository)

lemma keeps_processGitHubUser: "keeps_files (processGitHubUser api username)"
  unfolding processGitHubUser_def
  by (intro keeps keeps_getContributorEmails keeps_getUserRepositories)

lemma keeps_count_successes: "keeps_files (count_successes api us n)"
  by (induction us arbitrary: n) (auto intro: keeps keeps_processGitHubUser)

lemma save_unit:
  "then_do (saveEmails f) (\<lambda>emails. ret ()) s
   = (Returned (), s\<lparr>files := (files s)(f \<mapsto> JArray (map JString (emailSet s)))\<rparr>)"
  by (simp add: then_do_def saveEmails_def ret_def)

lemma search_step:
  "searchJavaScriptRepos api page st =
     (case search_repos api page of
        Failed e \<Rightarrow> on_error e st
      | Got repos \<Rightarrow>
          (case for_each repos (\<lambda>r. processRepository api (fst r) (snd r)) st of
             (Threw e, s1) \<Rightarrow> on_error e s1
           | (Returned u, s1) \<Rightarrow>
               if 0 < length repos \<and> page < 100
               then (case searchJavaScriptRepos api (page + 1) s1 of
                       (Threw e, s2) \<Rightarrow> on_error e s2
                     | (Returned u, s2) \<Rightarrow> (Returned u, s2))
               else then_do (saveEmails default_filename) (\<lambda>emails. ret ()) s1))"
  by (subst searchJavaScriptRepos.simps)
     (simp add: try_catch_def then_do_def await_def on_error_def saveEmails_def ret_def
        split: response.splits prod.splits outcome.splits)

lemma processRepository_returns: "fst (processRepository api owner repo st) = Returned ()"
  unfolding processRepository_def by (rule catch_unit)

lemma for_each_returns:
  "(\<And>x s. fst (f x s) = Returned ()) \<Longrightarrow> fst (for_each xs f st) = Returned ()"
proof (induction xs arbitrary: st)
  case Nil
  show ?case by (simp add: ret_def)
next
  case (Cons x xs)
  obtain s1 where "f x st = (Returned (), s1)"
    using Cons.prems [of x st] by (cases "f x st") simp
  then show ?case using Cons.IH [OF Cons.prems, of s1] by (simp add: then_do_def)
qed

lemma on_error_returns: "fst (on_error e s) = Returned ()"
  by (simp add: on_error_def then_do_def saveEmails_def ret_def)

lemma search_returns: "fst (searchJavaScriptRepos api page st) = Returned ()"
  unfolding search_step [of api page st]
  by (auto simp: on_error_returns save_unit split: response.splits prod.splits outcome.splits)

lemma search_writes:
  "files (snd (searchJavaScriptRepos api page st)) =
     (if run_writes api page
      then (files st)(default_filename \<mapsto>
             JArray (map JString (emailSet (snd (searchJavaScriptRepos api page st)))))
      else files st)"
proof (induction api page arbitrary: st rule: searchJavaScriptRepos.induct)
  case (1 api page)
  show ?case
  proof (cases "search_repos api page")
    case (Failed e)
    then have fp: "final_page api page = page" by (subst final_page.simps) simp
    show ?thesis using Failed
      by (simp add: search_step [of api page] run_writes_def fp on_error_def then_do_def
          saveEmails_def ret_def)
  next
    case (Got repos)
    obtain o1 s1 where fe: "for_each repos (\<lambda>r. processRepository api (fst r) (snd r)) st = (o1, s1)"
      by (cases "for_each repos (\<lambda>r. processRepository api (fst r) (snd r)) st")
    have "fst (for_each repos (\<lambda>r. processRepository api (fst r) (snd r)) st) = Returned ()"
      by (rule for_each_returns) (rule processRepository_returns)
    with fe have o1: "o1 = Returned ()" by simp
    have "keeps_files (for_each repos (\<lambda>r. processRepository api (fst r) (snd r)))"
      by (intro keeps keeps_processRepository)
    then have f1: "files s1 = files st" using fe by (auto simp: keeps_files_def dest: spec [of _ st])
    show ?thesis
    proof (cases "0 < length repos \<and> page < 100")
      case True
      obtain o2 s2 where rec: "searchJavaScriptRepos api (page + 1) s1 = (o2, s2)"
        by (cases "searchJavaScriptRepos api (page + 1) s1")
      have o2: "o2 = Returned ()" using search_returns [of api "page + 1" s1] rec by simp
      have fp: "final_page api page = final_page api (page + 1)"
        using Got True by (subst final_page.simps) simp
      have rw: "run_writes api page = run_writes api (page + 1)" by (simp add: run_writes_def fp)
      have res: "searchJavaScriptRepos api page st = (Returned (), s2)"
        using Got fe o1 True rec o2 by (simp add: search_step [of api page])
      note ih = "1.IH" [OF True, of s1, unfolded rec snd_conv f1]
      show ?thesis unfolding res snd_conv rw by (rule ih)
    next
      case False
      then have fp: "final_page api page = page" using Got by (subst final_page.simps) auto
      have rw: "run_writes api page" using Got by (simp add: run_writes_def fp)
      have "searchJavaScriptRepos api page st
            = then_do (saveEmails default_filename) (\<lambda>emails. ret ()) s1"
        using Got fe o1 False by (auto simp: search_step [of api page])
      then show ?thesis using f1 rw by (simp add: save_unit)
    qed
  qed
qed

lemma repository_mode:
  assumes "mode \<noteq> ''upwork''"
  shows "\<exists>st'. main w api mode maxPages li st = Some ((Returned (emailSet st'), st'), li) \<and>
           files st' = (if run_writes api 1
                        then (files st)(default_filename \<mapsto> JArray (map JString (emailSet st')))
                        else files st)"
proof -
  obtain o1 s1 where rec: "searchJavaScriptRepos api 1 (st\<lparr>emailSet := []\<rparr>) = (o1, s1)"
    by (cases "searchJavaScriptRepos api 1 (st\<lparr>emailSet := []\<rparr>)")
  have o1: "o1 = Returned ()" using search_returns [of api 1 "st\<lparr>emailSet := []\<rparr>"] rec by simp
  from search_writes [of api 1 "st\<lparr>emailSet := []\<rparr>"] rec
  have f: "files s1 = (if run_writes api 1
                        then (files st)(default_filename \<mapsto> JArray (map JString (emailSet s1)))
                        else files st)" by simp
  have "main w api mode maxPages li st = Some ((Returned (emailSet s1), s1), li)"
    using assms rec o1
    by (simp add: main_def searchJavaScriptDevelopers_def then_do_def emailSet_clear_def
        emailSet_array_def)
  with f show ?thesis by blast
qed

lemma marketplace_mode:
  "main w api ''upwork'' maxPages li st =
     (case findGitHubAccountsFromUpwork w maxPages li of
        None \<Rightarrow> None
      | Some (us, li') \<Rightarrow>
          Some (then_do (count_successes api us 0)
                  (\<lambda>successCount. saveEmails ''fullstack-developer-emails.json'')
                  (st\<lparr>emailSet := []\<rparr>), li'))"
  by (simp add: main_def findEmailsFromUpworkDevelopers_def emailSet_clear_def
      split: option.splits prod.splits)

lemma marketplace_writes:
  assumes "findGitHubAccountsFromUpwork w maxPages li = Some (us, li')"
  shows "\<exists>st'. main w api ''upwork'' maxPages li st = Some ((Returned (emailSet st'), st'), li') \<and>
           files st' = (files st)(''fullstack-developer-emails.json'' \<mapsto>
                          JArray (map JString (emailSet st')))"
proof -
  obtain s1 where c: "count_successes api us 0 (st\<lparr>emailSet := []\<rparr>) = (Returned (length us), s1)"
    using count_successes_all [of api us 0 "st\<lparr>emailSet := []\<rparr>"]
    by (cases "count_successes api us 0 (st\<lparr>emailSet := []\<rparr>)") simp
  have "keeps_files (count_successes api us 0)" by (rule keeps_count_successes)
  then have f1: "files s1 = files st" using c
    by (auto simp: keeps_files_def dest: spec [of _ "st\<lparr>emailSet := []\<rparr>"])
  let ?st' = "s1\<lparr>files := (files s1)(''fullstack-developer-emails.json'' \<mapsto>
                  JArray (map JString (emailSet s1)))\<rparr>"
  have "main w api ''upwork'' maxPages li st = Some ((Returned (emailSet ?st'), ?st'), li')"
    using assms c by (simp add: marketplace_mode then_do_def saveEmails_def)
  moreover have "files ?st' = (files st)(''fullstack-developer-emails.json'' \<mapsto>
                          JArray (map JString (emailSet ?st')))"
    by (simp add: f1)
  ultimately show ?thesis by blast
qed

lemma record_array: "is_record_array (JArray (map entry_json es))"
  by (induction es) (simp_all add: entry_json_def)

lemma string_array: "xs \<noteq> [] \<Longrightarrow> \<not> is_record_array (JArray (map JString xs))"
  by (cases xs) simp_all

text \<open>
  Claim C7, amended. Every output is a JSON array under a fixed file name, and writing it
  replaces what the file held. \<open>index.js\<close> writes bare e-mail strings in both modes.
  The marketplace mode, whenever its crawl returns, returns the store and has written it
  to \<open>fullstack-developer-emails.json\<close> (and returns nothing when the crawl does not
  return). The repository-search mode always returns the store; it has written the store
  to \<open>javascript-developer-emails.json\<close> when the pagination ended (an empty page or
  page 100) or a search failed with status 403, and has left the files as they were when
  a search failed otherwise. Only the browser scraper writes \<open>{email, source}\<close>
  records, to \<open>fullstack-developer-emails.json\<close>. A non-empty array of strings is not
  an array of such records.
\<close>

theorem output_shapes:
  "files (snd (saveEmails filename st))
     = (files st)(filename \<mapsto> JArray (map JString (emailSet st)))
   \<and> (findGitHubAccountsFromUpwork w maxPages li = Some (us, li') \<longrightarrow>
        (\<exists>st'. main w api ''upwork'' maxPages li st = Some ((Returned (emailSet st'), st'), li') \<and>
           files st' = (files st)(''fullstack-developer-emails.json'' \<mapsto>
                          JArray (map JString (emailSet st')))))
   \<and> (findGitHubAccountsFromUpwork w maxPages li = None \<longrightarrow>
        main w api ''upwork'' maxPages li st = None)
   \<and> (mode \<noteq> ''upwork'' \<longrightarrow>
        (\<exists>st'. main w api mode maxPages li st = Some ((Returned (emailSet st'), st'), li) \<and>
           files st' = (if run_writes api 1
                        then (files st)(''javascript-developer-emails.json'' \<mapsto>
                               JArray (map JString (emailSet st')))
                        else files st)))
   \<and> (search_repos api page = Failed e \<longrightarrow> run_writes api page = (status e = Some 403))
   \<and> (search_repos api page = Got repos \<longrightarrow>
        run_writes api page = (if 0 < length repos \<and> page < 100 then run_writes api (page + 1)
                               else True))
   \<and> outputs (puppeteer_main b urls pst)
       = (outputs pst)(''fullstack-developer-emails.json'' \<mapsto>
            JArray (map entry_json (emailData (puppeteer_main b urls pst))))
   \<and> is_record_array (JArray (map entry_json es))
   \<and> (xs \<noteq> [] \<longrightarrow> \<not> is_record_array (JArray (map JString xs)))"
proof (intro conjI impI)
  show "files (snd (saveEmails filename st))
     = (files st)(filename \<mapsto> JArray (map JString (emailSet st)))"
    by (simp add: saveEmails_def)
  show "\<exists>st'. main w api ''upwork'' maxPages li st = Some ((Returned (emailSet st'), st'), li') \<and>
           files st' = (files st)(''fullstack-developer-emails.json'' \<mapsto>
                          JArray (map JString (emailSet st')))"
    if "findGitHubAccountsFromUpwork w maxPages li = Some (us, li')"
    using that by (rule marketplace_writes)
  show "main w api ''upwork'' maxPages li st = None"
    if "findGitHubAccountsFromUpwork w maxPages li = None"
    using that by (simp add: marketplace_mode)
  show "\<exists>st'. main w api mode maxPages li st = Some ((Returned (emailSet st'), st'), li) \<and>
           files st' = (if run_writes api 1
                        then (files st)(''javascript-developer-emails.json'' \<mapsto>
                               JArray (map JString (emailSet st')))
                        else files st)"
    if "mode \<noteq> ''upwork''"
    by (rule repository_mode [OF that, unfolded default_filename_def])
  show "run_writes api page = (status e = Some 403)" if "search_repos api page = Failed e"
  proof -
    have "final_page api page = page" using that by (subst final_page.simps) simp
    then show ?thesis using that by (simp add: run_writes_def)
  qed
  show "run_writes api page = (if 0 < length repos \<and> page < 100 then run_writes api (page + 1)
                               else True)"
    if "search_repos api page = Got repos"
  proof (cases "0 < length repos \<and> page < 100")
    case True
    have "final_page api page = final_page api (page + 1)"
      using that True by (subst final_page.simps) simp
    then show ?thesis using True by (simp add: run_writes_def)
  next
    case False
    have "final_page api page = page" using that False by (subst final_page.simps) auto
    then have "run_writes api page" using that by (simp add: run_writes_def)
    then show ?thesis using False by auto
  qed
  have scrape_outputs: "outputs (scrape_all b urls s) = outputs s" for s
    unfolding scrape_all_def
    by (induction urls arbitrary: s)
       (auto simp: scrapeGitHubProfile_def Let_def split: prod.splits response.splits if_splits)
  show "outputs (puppeteer_main b urls pst)
       = (outputs pst)(''fullstack-developer-emails.json'' \<mapsto>
            JArray (map entry_json (emailData (puppeteer_main b urls pst))))"
    by (simp add: puppeteer_main_def Let_def scrape_outputs)
  show "is_record_array (JArray (map entry_json es))" by (rule record_array)
  show "\<not> is_record_array (JArray (map JString xs))" if "xs \<noteq> []"
    using that by (rule string_array)
qed

lemma mock_scrape:
  "scrapeUpworkProfile (mock_site []) ''https://www.upwork.com/freelancers/~01'' 0
     = Some ([''mockuser'', ''mockuser2''], 28)"
  by (simp add: scrapeUpworkProfile_def mock_site_def mock_profile_def text_scan.simps github_eval)

lemma mock_crawl: "findGitHubAccountsFromUpwork (mock_site []) 0 0 = Some ([''mockuser'', ''mockuser2''], 28)"
proof -
  have p1: "searchUpworkProfiles (mock_site []) (Suc 0) 0 = Some ([''mockuser'', ''mockuser2''], 28)"
    using mock_scrape by (simp add: searchUpworkProfiles_def profile_links_def truthy_def mock_site_def)
  have p2: "searchUpworkProfiles (mock_site []) (Suc (Suc 0)) 28 = Some ([], 28)"
    by (simp add: searchUpworkProfiles_def profile_links_def mock_site_def)
  have c2: "crawl_loop (mock_site []) 0 (Suc (Suc 0)) 28 [''mockuser'', ''mockuser2'']
      = Some ([''mockuser'', ''mockuser2''], Suc (Suc 0), 28)"
    by (subst crawl_loop.simps) (simp add: p2)
  have c1: "crawl_loop (mock_site []) 0 (Suc 0) 0 [] = Some ([''mockuser'', ''mockuser2''], Suc (Suc 0), 28)"
    by (subst crawl_loop.simps) (simp add: p1 c2 add_all_def set_add_def)
  show ?thesis using c1 by (simp add: findGitHubAccountsFromUpwork_def)
qed

lemma mock_user:
  "processGitHubUser (demo_api [] (Some ''dev@mock.io'') None 2) username \<lparr>emailSet = es, files = fs\<rparr>
     = (Returned True, \<lparr>emailSet = set_add ''dev@mock.io'' es, files = fs\<rparr>)"
  by (simp add: processGitHubUser_def getContributorEmails_def getUserEvents_def
      getUserRepositories_def demo_api_def try_catch_def then_do_def await_def ret_def
      emailSet_add_def add_unless_noreply_def truthy_def)

lemma marketplace_run:
  "main (mock_site []) (demo_api [] (Some ''dev@mock.io'') None 2) ''upwork'' 0 0
       \<lparr>emailSet = [], files = Map.empty\<rparr>
     = Some ((Returned [''dev@mock.io''],
              \<lparr>emailSet = [''dev@mock.io''],
               files = [''fullstack-developer-emails.json'' \<mapsto> JArray [JString ''dev@mock.io'']]\<rparr>),
             28)"
  by (simp add: main_def findEmailsFromUpworkDevelopers_def mock_crawl mock_user emailSet_clear_def
      then_do_def ret_def saveEmails_def set_add_def)

text \<open>
  Claim C7 as stated fails: the marketplace mode of \<open>index.js\<close> on the mock profile
  writes the bare string \<open>dev@mock.io\<close>, not an \<open>{email, source}\<close> record.
\<close>

theorem marketplace_writes_strings:
  "main (mock_site []) (demo_api [] (Some ''dev@mock.io'') None 2) ''upwork'' 0 0
       \<lparr>emailSet = [], files = Map.empty\<rparr>
     = Some ((Returned [''dev@mock.io''],
              \<lparr>emailSet = [''dev@mock.io''],
               files = [''fullstack-developer-emails.json'' \<mapsto> JArray [JString ''dev@mock.io'']]\<rparr>),
             28)
   \<and> \<not> is_record_array (JArray [JString ''dev@mock.io''])"
  using marketplace_run by simp

lemma demo_run_writes: "run_writes (demo_api readme profileEmail commitEmail 2) 1"
proof -
  let ?api = "demo_api readme profileEmail commitEmail 2"
  have s: "search_repos ?api p
      = (if p < 2 then Got [(''octo'', ''demo'')] else Failed (Error (Some 403)))" for p
    by (simp add: demo_api_def)
  have a: "final_page ?api (Suc (Suc 0)) = Suc (Suc 0)"
    by (subst final_page.simps) (simp add: s)
  have "final_page ?api (Suc 0) = Suc (Suc 0)"
    by (subst final_page.simps) (simp add: s a)
  then show ?thesis by (simp add: run_writes_def s)
qed

text \<open>
  Both modes on the mock profile and the API whose second search fails with status 403.
\<close>

theorem output_shapes_witness:
  "findGitHubAccountsFromUpwork (mock_site []) 0 0 = Some ([''mockuser'', ''mockuser2''], 28)
   \<and> main (mock_site []) (demo_api [] (Some ''dev@mock.io'') None 2) ''upwork'' 0 0
       \<lparr>emailSet = [], files = Map.empty\<rparr>
     = Some ((Returned [''dev@mock.io''],
              \<lparr>emailSet = [''dev@mock.io''],
               files = [''fullstack-developer-emails.json'' \<mapsto> JArray [JString ''dev@mock.io'']]\<rparr>),
             28)
   \<and> ''javascript'' \<noteq> ''upwork''
   \<and> run_writes (demo_api [] (Some ''dev@mock.io'') None 2) 1
   \<and> (\<exists>st'. main (mock_site []) (demo_api [] (Some ''dev@mock.io'') None 2) ''javascript'' 0 0
                \<lparr>emailSet = [], files = Map.empty\<rparr>
              = Some ((Returned (emailSet st'), st'), 0) \<and>
            files st' = [''javascript-developer-emails.json'' \<mapsto>
                           JArray (map JString (emailSet st'))])
   \<and> [''dev@mock.io''] \<noteq> []
   \<and> \<not> is_record_array (JArray (map JString [''dev@mock.io'']))
   \<and> is_record_array (JArray (map entry_json
         [\<lparr>email = ''dev@mock.io'', source = ''https://github.com/mockuser (Profile)''\<rparr>]))"
  using mock_crawl marketplace_run demo_run_writes [of "[]" "Some ''dev@mock.io''" None]
    output_shapes [where w = "mock_site []" and api = "demo_api [] (Some ''dev@mock.io'') None 2"
      and maxPages = 0 and li = 0 and st = "\<lparr>emailSet = [], files = Map.empty\<rparr>"
      and us = "[''mockuser'', ''mockuser2'']" and li' = 28
      and mode = "''javascript''" and xs = "[''dev@mock.io'']"
      and es = "[\<lparr>email = ''dev@mock.io'', source = ''https://github.com/mockuser (Profile)''\<rparr>]"]
  by simp

subsection \<open>E-mail extraction\<close>

lemma lit_exact: "item_lang False (Lit l) w = (w = l)"
proof -
  have "length w = length l \<Longrightarrow> lit_match False l w = (w = l)"
    by (induction False l w rule: lit_match.induct) (auto simp: char_eq_def)
  then show ?thesis by auto
qed

lemma email_pieces:
  "list_all2 (item_lang False) (items emailRegex) ps =
     (\<exists>l d t. ps = [l, ''@'', d, ''.'', t] \<and>
        1 \<le> length l \<and> list_all (in_class False local_class) l \<and>
        1 \<le> length d \<and> list_all (in_class False domain_class) d \<and>
        2 \<le> length t \<and> list_all (in_class False alpha_class) t)"
  by (auto simp: emailRegex_def list_all2_Cons1 lit_exact simp del: item_lang.simps(1))

lemma email_shape_pieces:
  "email_shape w = (\<exists>ps. list_all2 (item_lang False) (items emailRegex) ps \<and> w = concat ps)"
  unfolding email_pieces email_shape_def
  apply (rule iffI)
   apply (elim exE conjE)
  subgoal for l d t
    by (rule exI [of _ "[l, ''@'', d, ''.'', t]"]) (cases l; cases d; simp)
  apply (elim exE conjE)
  subgoal for ps l d t
    by (rule exI [of _ l], rule exI [of _ d], rule exI [of _ t]) auto
  done

lemma email_match_sound:
  "m_items False (items emailRegex) s = Some ps \<Longrightarrow> email_shape (concat ps)"
  using m_items_sound [of False "items emailRegex" s ps] email_shape_pieces by blast

lemma email_match_complete:
  "email_shape w \<Longrightarrow> m_items False (items emailRegex) (w @ rest) \<noteq> None"
  using m_items_complete [of False "items emailRegex" _ rest] email_shape_pieces by metis

lemma email_shape_nonempty: "email_shape w \<Longrightarrow> w \<noteq> []"
  by (auto simp: email_shape_def)

lemma email_exec_None:
  assumes "regexp_exec emailRegex li str = (None, e)" and "li \<le> length str"
  shows "\<not> has_email (drop li str)"
proof
  assume "has_email (drop li str)"
  then obtain a w b where s: "drop li str = a @ w @ b" and w: "email_shape w"
    by (auto simp: has_email_def)
  from assms have "scan emailRegex (drop li str) li = None"
    by (auto simp: regexp_exec_def split: option.splits)
  from scan_None [OF this, of "length a"]
  have "m_items (ignoreCase emailRegex) (items emailRegex) (drop (length a) (drop li str)) = None"
    by (simp add: s)
  moreover have "drop (length a) (drop li str) = w @ b" by (simp add: s)
  moreover have "ignoreCase emailRegex = False" by (simp add: emailRegex_def)
  ultimately show False using email_match_complete [OF w, of b] by simp
qed

lemma email_exec_Some:
  assumes "regexp_exec emailRegex li str = (Some m, e)"
  shows "\<exists>pre. drop li str = pre @ match0 m @ drop e str \<and> \<not> has_email pre \<and>
           email_shape (match0 m) \<and> e \<le> length str"
proof -
  have ci: "ignoreCase emailRegex = False" by (simp add: emailRegex_def)
  from assms have le: "li \<le> length str" and sc: "scan emailRegex (drop li str) li = Some m"
    and e: "e = index m + length (match0 m)"
    by (auto simp: regexp_exec_def split: if_splits option.splits)
  from scan_sound [OF sc] obtain pre rest where
    a: "drop li str = pre @ match0 m @ rest" and b: "index m = li + length pre"
    and c: "m_items False (items emailRegex) (drop (length pre) (drop li str)) = Some (pieces m)"
    and d: "\<forall>p < length pre. m_items False (items emailRegex) (drop p (drop li str)) = None"
    unfolding ci by blast
  have shape: "email_shape (match0 m)"
    using email_match_sound [OF c] by (simp add: match0_def)
  have "drop e str = drop (length pre + length (match0 m)) (drop li str)"
    by (simp add: e b add.commute add.left_commute)
  also have "\<dots> = rest" by (simp add: a)
  finally have r: "drop e str = rest" .
  have nogap: "\<not> has_email pre"
  proof
    assume "has_email pre"
    then obtain x w y where p: "pre = x @ w @ y" and w: "email_shape w"
      by (auto simp: has_email_def)
    from email_shape_nonempty [OF w] have "length x < length pre" by (simp add: p)
    with d have "m_items False (items emailRegex) (drop (length x) (drop li str)) = None" by blast
    moreover have "drop (length x) (drop li str) = w @ (y @ match0 m @ rest)"
      by (simp add: a p)
    ultimately show False using email_match_complete [OF w, of "y @ match0 m @ rest"] by simp
  qed
  from regexp_exec_Some(3) [OF assms] have "e \<le> length str" .
  with a r nogap shape show ?thesis by auto
qed

lemma email_loop:
  "li \<le> length str \<Longrightarrow>
     list_all email_shape (match_loop emailRegex str li) \<and>
     (\<exists>gaps. length gaps = Suc (length (match_loop emailRegex str li)) \<and>
        drop li str = interleave gaps (match_loop emailRegex str li) \<and>
        list_all (\<lambda>g. \<not> has_email g) gaps)"
proof (induction re\<equiv>emailRegex str li rule: match_loop.induct)
  case (1 str li)
  obtain x e where ex: "regexp_exec emailRegex li str = (x, e)"
    by (cases "regexp_exec emailRegex li str")
  show ?case
  proof (cases x)
    case None
    then have ms: "match_loop emailRegex str li = []"
      using ex by (subst match_loop.simps) simp
    have "\<not> has_email (drop li str)"
      using email_exec_None ex None "1.prems" by blast
    then have "length [drop li str] = Suc (length ([]::string list)) \<and>
        drop li str = interleave [drop li str] [] \<and>
        list_all (\<lambda>g. \<not> has_email g) [drop li str]" by simp
    then show ?thesis unfolding ms by (intro conjI exI [of _ "[drop li str]"]) simp_all
  next
    case (Some m)
    with ex have exm: "regexp_exec emailRegex li str = (Some m, e)" by simp
    from email_exec_Some [OF exm] obtain pre where
      a: "drop li str = pre @ match0 m @ drop e str" and g: "\<not> has_email pre"
      and sh: "email_shape (match0 m)" and le: "e \<le> length str"
      by blast
    have ne: "match0 m \<noteq> []" using sh by (rule email_shape_nonempty)
    have ms: "match_loop emailRegex str li = match0 m # match_loop emailRegex str e"
      using exm ne by (subst match_loop.simps) simp
    from "1.hyps" [OF exm [symmetric] refl] ne le
    have ih: "list_all email_shape (match_loop emailRegex str e) \<and>
     (\<exists>gaps. length gaps = Suc (length (match_loop emailRegex str e)) \<and>
        drop e str = interleave gaps (match_loop emailRegex str e) \<and>
        list_all (\<lambda>g. \<not> has_email g) gaps)"
      by simp
    then obtain gaps where l: "length gaps = Suc (length (match_loop emailRegex str e))"
      and i: "drop e str = interleave gaps (match_loop emailRegex str e)"
      and n: "list_all (\<lambda>g. \<not> has_email g) gaps"
      by blast
    have "length (pre # gaps) = Suc (length (match0 m # match_loop emailRegex str e)) \<and>
        drop li str = interleave (pre # gaps) (match0 m # match_loop emailRegex str e) \<and>
        list_all (\<lambda>g. \<not> has_email g) (pre # gaps)"
      using l i n g a by simp
    then have "\<exists>gs. length gs = Suc (length (match0 m # match_loop emailRegex str e)) \<and>
        drop li str = interleave gs (match0 m # match_loop emailRegex str e) \<and>
        list_all (\<lambda>g. \<not> has_email g) gs"
      by (rule exI)
    then show ?thesis unfolding ms using ih sh by simp
  qed
qed

lemma extractEmails_loop: "extractEmails str = match_loop emailRegex str 0"
  by (simp add: extractEmails_def string_match_def split: list.splits)

lemma extract_props:
  "list_all email_shape (extractEmails str) \<and>
   (\<exists>gaps. length gaps = Suc (length (extractEmails str)) \<and>
      str = interleave gaps (extractEmails str) \<and>
      list_all (\<lambda>g. \<not> has_email g) gaps)"
  using email_loop [of 0 str] by (simp add: extractEmails_loop)

lemma extract_empty_iff: "(extractEmails str = []) = (\<not> has_email str)"
proof
  assume e: "extractEmails str = []"
  from extract_props [of str] obtain gaps where "length gaps = Suc 0"
    and i: "str = interleave gaps []" and n: "list_all (\<lambda>g. \<not> has_email g) gaps"
    unfolding e by auto
  then obtain g where "gaps = [g]" by (cases gaps) auto
  with i n show "\<not> has_email str" by simp
next
  assume n: "\<not> has_email str"
  show "extractEmails str = []"
  proof (cases "extractEmails str")
    case Nil
    then show ?thesis .
  next
    case (Cons m ms)
    from extract_props [of str] obtain gaps where sh: "email_shape m"
      and l: "length gaps = Suc (Suc (length ms))" and i: "str = interleave gaps (m # ms)"
      unfolding Cons by auto
    from l obtain g gs where "gaps = g # gs" by (cases gaps) auto
    with i have "str = g @ m @ interleave gs ms" by simp
    with sh have "has_email str" unfolding has_email_def by blast
    with n show ?thesis by simp
  qed
qed

lemma no_shape_a_b: "\<not> email_shape ''a@b''"
proof
  assume "email_shape ''a@b''"
  then have "has_email ''a@b''"
    unfolding has_email_def by (intro exI [of _ "[]"] exI [of _ "''a@b''"]) simp
  moreover have "extractEmails ''a@b'' = []" by (simp add: email_eval)
  ultimately show False using extract_empty_iff [of "''a@b''"] by simp
qed

text \<open>
  The matcher is greedy: a repetition takes the longest run that lets the rest match, so
  the match found at a position is the longest e-mail that starts there.
\<close>

lemma first_some_counts_max:
  "first_some f (counts n r) = Some y \<Longrightarrow>
     \<exists>k. n \<le> k \<and> k \<le> r \<and> f k = Some y \<and> (\<forall>j. k < j \<and> j \<le> r \<longrightarrow> f j = None)"
proof (induction r)
  case 0
  then show ?case by (auto split: if_splits option.splits)
next
  case (Suc r)
  show ?case
  proof (cases "n \<le> Suc r")
    case False
    with Suc.prems show ?thesis by simp
  next
    case True
    show ?thesis
    proof (cases "f (Suc r)")
      case (Some z)
      with Suc.prems True have "f (Suc r) = Some y" by simp
      with True show ?thesis by (intro exI [of _ "Suc r"]) auto
    next
      case None
      with Suc.prems True have "first_some f (counts n r) = Some y" by simp
      from Suc.IH [OF this] obtain k where k: "n \<le> k" "k \<le> r" "f k = Some y"
        and m: "\<forall>j. k < j \<and> j \<le> r \<longrightarrow> f j = None" by blast
      have "\<forall>j. k < j \<and> j \<le> Suc r \<longrightarrow> f j = None"
        using m None by (auto simp: le_Suc_eq)
      with k show ?thesis by (intro exI [of _ k]) auto
    qed
  qed
qed

lemma m_Rep_greedy:
  assumes "m_items ci (Rep rs n # its) s = Some ps"
  shows "\<exists>k qs. ps = take k s # qs \<and> n \<le> k \<and> k \<le> run_len ci rs s \<and>
           m_items ci its (drop k s) = Some qs \<and>
           (\<forall>j. k < j \<and> j \<le> run_len ci rs s \<longrightarrow> m_items ci its (drop j s) = None)"
proof -
  define f where "f = (\<lambda>k. map_option ((#) (take k s)) (m_items ci its (drop k s)))"
  from assms have "first_some f (counts n (run_len ci rs s)) = Some ps" by (simp add: f_def)
  from first_some_counts_max [OF this] obtain k where k: "n \<le> k" "k \<le> run_len ci rs s"
    and fk: "f k = Some ps" and m: "\<forall>j. k < j \<and> j \<le> run_len ci rs s \<longrightarrow> f j = None"
    by blast
  from fk obtain qs where "m_items ci its (drop k s) = Some qs" "ps = take k s # qs"
    by (auto simp: f_def)
  moreover have "\<forall>j. k < j \<and> j \<le> run_len ci rs s \<longrightarrow> m_items ci its (drop j s) = None"
    using m by (auto simp: f_def)
  ultimately show ?thesis using k by blast
qed

lemma m_Lit_exact:
  assumes "m_items False (Lit [c] # its) s = Some ps"
  shows "\<exists>s' qs. s = c # s' \<and> ps = [c] # qs \<and> m_items False its s' = Some qs"
proof (cases s)
  case Nil
  with assms show ?thesis by simp
next
  case (Cons a s')
  with assms show ?thesis by (auto simp: char_eq_def split: if_splits)
qed

lemma unique_run:
  "list_all P a \<Longrightarrow> list_all P b \<Longrightarrow> \<not> P c \<Longrightarrow> a @ c # x = b @ c # y \<Longrightarrow> a = b \<and> x = y"
proof (induction a arbitrary: b)
  case Nil
  then show ?case by (cases b) auto
next
  case (Cons h a)
  then show ?case by (cases b) auto
qed

lemmas class_eval = in_class_def in_range_def code_def local_class_def domain_class_def alpha_class_def

lemma email_longest:
  assumes m: "m_items False (items emailRegex) s = Some ps"
    and w: "email_shape w" and s: "s = w @ r"
  shows "length w \<le> length (concat ps)"
proof -
  from w obtain l' d' t' where w': "w = l' @ ''@'' @ d' @ ''.'' @ t'"
    and l': "list_all (in_class False local_class) l'"
    and d': "d' \<noteq> []" "list_all (in_class False domain_class) d'"
    and t': "list_all (in_class False alpha_class) t'" and t2: "2 \<le> length t'"
    by (auto simp: email_shape_def)
  have no_at: "\<not> in_class False local_class CHR ''@''" by (simp add: class_eval)
  have no_dot: "\<not> in_class False alpha_class CHR ''.''" by (simp add: class_eval)
  \<comment> \<open>the local part\<close>
  from m have "m_items False (Rep local_class 1 # [Lit ''@'', Rep domain_class 1, Lit ''.'', Rep alpha_class 2]) s = Some ps"
    by (simp add: emailRegex_def)
  from m_Rep_greedy [OF this] obtain k1 qs1 where ps: "ps = take k1 s # qs1"
    and k1: "k1 \<le> run_len False local_class s"
    and m1: "m_items False [Lit ''@'', Rep domain_class 1, Lit ''.'', Rep alpha_class 2] (drop k1 s) = Some qs1"
    by blast
  from m_Lit_exact [OF m1] obtain s2 qs2 where s2: "drop k1 s = CHR ''@'' # s2"
    and qs1: "qs1 = ''@'' # qs2"
    and m2: "m_items False [Rep domain_class 1, Lit ''.'', Rep alpha_class 2] s2 = Some qs2"
    by blast
  have "take k1 s @ CHR ''@'' # s2 = s" using s2 append_take_drop_id [of k1 s] by simp
  then have "take k1 s @ CHR ''@'' # s2 = l' @ CHR ''@'' # (d' @ ''.'' @ t' @ r)"
    by (simp add: s w')
  from unique_run [OF run_len_take [OF k1] l' no_at this]
  have l: "take k1 s = l'" and s2': "s2 = d' @ ''.'' @ t' @ r" by simp_all
  \<comment> \<open>the domain\<close>
  from m_Rep_greedy [OF m2] obtain k2 qs3 where qs2: "qs2 = take k2 s2 # qs3"
    and k2b: "k2 \<le> run_len False domain_class s2"
    and m3: "m_items False [Lit ''.'', Rep alpha_class 2] (drop k2 s2) = Some qs3"
    and mx: "\<forall>j. k2 < j \<and> j \<le> run_len False domain_class s2 \<longrightarrow>
               m_items False [Lit ''.'', Rep alpha_class 2] (drop j s2) = None"
    by blast
  have k2len: "k2 \<le> length s2"
    using k2b run_len_le [of False domain_class s2] by simp
  have "list_all2 (item_lang False) [Lit ''.'', Rep alpha_class 2] [''.'', t']"
    using t' t2 by (simp add: char_eq_def)
  from m_items_complete [OF this, of r]
  have "m_items False [Lit ''.'', Rep alpha_class 2] (drop (length d') s2) \<noteq> None"
    by (simp add: s2')
  moreover have "length d' \<le> run_len False domain_class s2"
    unfolding s2' by (rule run_len_append [OF d'(2)])
  ultimately have kk: "length d' \<le> k2" using mx by (cases "length d' \<le> k2") auto
  \<comment> \<open>the final label\<close>
  from m_Lit_exact [OF m3] obtain s3 qs4 where s3: "drop k2 s2 = CHR ''.'' # s3"
    and qs3: "qs3 = ''.'' # qs4" and m4: "m_items False [Rep alpha_class 2] s3 = Some qs4"
    by blast
  from m_Rep_greedy [OF m4] obtain k3 qs5 where qs4: "qs4 = take k3 s3 # qs5"
    and k3: "k3 \<le> run_len False alpha_class s3"
    and m5: "m_items False [] (drop k3 s3) = Some qs5"
    and mx3: "\<forall>j. k3 < j \<and> j \<le> run_len False alpha_class s3 \<longrightarrow>
               m_items False [] (drop j s3) = None"
    by blast
  have k3max: "k3 = run_len False alpha_class s3"
  proof (rule ccontr)
    assume "k3 \<noteq> run_len False alpha_class s3"
    with k3 have "k3 < run_len False alpha_class s3" by simp
    with mx3 have "m_items False [] (drop (run_len False alpha_class s3) s3) = None" by blast
    then show False by simp
  qed
  have len_ps: "length (concat ps) = length l' + 1 + k2 + 1 + k3"
    using k2len k3 run_len_le [of False alpha_class s3] m5
    by (simp add: ps qs1 qs2 qs3 qs4 l min_absorb2)
  have len_w: "length w = length l' + 1 + length d' + 1 + length t'" by (simp add: w')
  show ?thesis
  proof (cases "length d' = k2")
    case True
    then have "s3 = t' @ r" using s3 by (simp add: s2')
    then have "length t' \<le> run_len False alpha_class s3"
      using run_len_append [OF t', of r] by simp
    then show ?thesis using True k3max len_ps len_w by simp
  next
    case False
    with kk have lt: "length d' < k2" by simp
    have "length d' + length t' < k2"
    proof (rule ccontr)
      assume "\<not> length d' + length t' < k2"
      define i where "i = k2 - length d' - 1"
      with lt \<open>\<not> length d' + length t' < k2\<close>
      have i: "k2 = length d' + 1 + i" "i < length t'" by simp_all
      have "hd (drop k2 s2) = CHR ''.''" by (simp add: s3)
      moreover have "drop k2 s2 = drop i t' @ r" using i(2) by (simp add: s2' i(1))
      moreover have "drop i t' \<noteq> []" using i(2) by simp
      ultimately have "hd (drop i t') = CHR ''.''" by simp
      moreover have "hd (drop i t') \<in> set t'"
        using i(2) hd_in_set [of "drop i t'"] set_drop_subset [of i t'] by auto
      ultimately have "in_class False alpha_class CHR ''.''"
        using t' by (auto simp: list_all_iff)
      with no_dot show False by simp
    qed
    then show ?thesis using len_ps len_w by simp
  qed
qed

lemma email_prefix_match:
  "email_prefix s w \<Longrightarrow> m_items False (items emailRegex) s \<noteq> None"
  using email_match_complete by (auto simp: email_prefix_def)

lemma email_exec_leftmost_longest:
  assumes "regexp_exec emailRegex li str = (Some m, e)"
  shows "\<exists>pre. drop li str = pre @ match0 m @ drop e str \<and>
           no_email_starts_in pre (match0 m @ drop e str) \<and>
           longest_email (match0 m @ drop e str) (match0 m) \<and> e \<le> length str"
proof -
  have ci: "ignoreCase emailRegex = False" by (simp add: emailRegex_def)
  from assms have le: "li \<le> length str" and sc: "scan emailRegex (drop li str) li = Some m"
    and e: "e = index m + length (match0 m)"
    by (auto simp: regexp_exec_def split: if_splits option.splits)
  from scan_sound [OF sc] obtain pre rest where
    a: "drop li str = pre @ match0 m @ rest" and b: "index m = li + length pre"
    and c: "m_items False (items emailRegex) (drop (length pre) (drop li str)) = Some (pieces m)"
    and d: "\<forall>p < length pre. m_items False (items emailRegex) (drop p (drop li str)) = None"
    unfolding ci by blast
  have c': "m_items False (items emailRegex) (match0 m @ rest) = Some (pieces m)"
    using c by (simp add: a)
  have shape: "email_shape (match0 m)"
    using email_match_sound [OF c] by (simp add: match0_def)
  have "drop e str = drop (length pre + length (match0 m)) (drop li str)"
    by (simp add: e b add.commute add.left_commute)
  also have "\<dots> = rest" by (simp add: a)
  finally have r: "drop e str = rest" .
  have left: "no_email_starts_in pre (match0 m @ rest)"
    unfolding no_email_starts_in_def
  proof (intro allI impI notI)
    fix x y assume xy: "pre = x @ y \<and> y \<noteq> []" and "\<exists>w. email_prefix (y @ match0 m @ rest) w"
    then obtain w where "email_prefix (y @ match0 m @ rest) w" by blast
    then have "m_items False (items emailRegex) (y @ match0 m @ rest) \<noteq> None"
      by (rule email_prefix_match)
    moreover have "length x < length pre" using xy by simp
    with d have "m_items False (items emailRegex) (drop (length x) (drop li str)) = None" by blast
    moreover have "drop (length x) (drop li str) = y @ match0 m @ rest" using xy by (simp add: a)
    ultimately show False by simp
  qed
  have long: "longest_email (match0 m @ rest) (match0 m)"
    unfolding longest_email_def email_prefix_def
  proof (intro conjI allI impI)
    show "email_shape (match0 m)" by (rule shape)
    show "\<exists>r. match0 m @ rest = match0 m @ r" by blast
    fix w assume "email_shape w \<and> (\<exists>r. match0 m @ rest = w @ r)"
    then obtain r where "email_shape w" "match0 m @ rest = w @ r" by blast
    from email_longest [OF c' this] show "length w \<le> length (match0 m)" by (simp add: match0_def)
  qed
  from regexp_exec_Some(3) [OF assms] have "e \<le> length str" .
  with a r left long show ?thesis by auto
qed

lemma email_loop_leftmost_longest:
  "li \<le> length str \<Longrightarrow> leftmost_longest (drop li str) (match_loop emailRegex str li)"
proof (induction re\<equiv>emailRegex str li rule: match_loop.induct)
  case (1 str li)
  obtain x e where ex: "regexp_exec emailRegex li str = (x, e)"
    by (cases "regexp_exec emailRegex li str")
  show ?case
  proof (cases x)
    case None
    then have ms: "match_loop emailRegex str li = []"
      using ex by (subst match_loop.simps) simp
    have "\<not> has_email (drop li str)"
      using email_exec_None ex None "1.prems" by blast
    then show ?thesis unfolding ms by simp
  next
    case (Some m)
    with ex have exm: "regexp_exec emailRegex li str = (Some m, e)" by simp
    from email_exec_leftmost_longest [OF exm] obtain pre where
      a: "drop li str = pre @ match0 m @ drop e str"
      and g: "no_email_starts_in pre (match0 m @ drop e str)"
      and lg: "longest_email (match0 m @ drop e str) (match0 m)" and le: "e \<le> length str"
      by blast
    have "email_shape (match0 m)" using lg by (simp add: longest_email_def email_prefix_def)
    then have ne: "match0 m \<noteq> []" by (rule email_shape_nonempty)
    have ms: "match_loop emailRegex str li = match0 m # match_loop emailRegex str e"
      using exm ne by (subst match_loop.simps) simp
    from "1.hyps" [OF exm [symmetric] refl] ne le
    have ih: "leftmost_longest (drop e str) (match_loop emailRegex str e)" by simp
    show ?thesis unfolding ms leftmost_longest.simps using a g lg ih by blast
  qed
qed

lemma leftmost_longest_unique:
  "leftmost_longest s ms \<Longrightarrow> leftmost_longest s ms' \<Longrightarrow> ms = ms'"
proof (induction ms arbitrary: s ms')
  case Nil
  show ?case
  proof (cases ms')
    case Nil
    then show ?thesis by simp
  next
    case (Cons m' ms1')
    with Nil.prems(2) obtain g rest where "s = g @ m' @ rest" "longest_email (m' @ rest) m'"
      by auto
    then have "has_email s" by (auto simp: has_email_def longest_email_def email_prefix_def)
    with Nil.prems(1) show ?thesis by simp
  qed
next
  case (Cons m ms1)
  from Cons.prems(1) obtain g rest where s: "s = g @ m @ rest"
    and left: "no_email_starts_in g (m @ rest)" and long: "longest_email (m @ rest) m"
    and tl: "leftmost_longest rest ms1" by auto
  show ?case
  proof (cases ms')
    case Nil
    have "has_email s" using s long by (auto simp: has_email_def longest_email_def email_prefix_def)
    with Cons.prems(2) Nil show ?thesis by simp
  next
    case c: (Cons m' ms1')
    with Cons.prems(2) obtain g' rest' where s': "s = g' @ m' @ rest'"
      and left': "no_email_starts_in g' (m' @ rest')" and long': "longest_email (m' @ rest') m'"
      and tl': "leftmost_longest rest' ms1'" by auto
    have pm: "email_prefix (m @ rest) m" using long by (simp add: longest_email_def)
    have pm': "email_prefix (m' @ rest') m'" using long' by (simp add: longest_email_def)
    from s s' have "g @ (m @ rest) = g' @ (m' @ rest')" by simp
    then obtain u where u: "(g = g' @ u \<and> u @ (m @ rest) = m' @ rest') \<or>
                              (g @ u = g' \<and> m @ rest = u @ (m' @ rest'))"
      unfolding append_eq_append_conv2 by blast
    have "u = []"
    proof (rule ccontr)
      assume ne: "u \<noteq> []"
      from u show False
      proof
        assume "g = g' @ u \<and> u @ (m @ rest) = m' @ rest'"
        with left ne pm' show False unfolding no_email_starts_in_def by (metis append.assoc)
      next
        assume "g @ u = g' \<and> m @ rest = u @ (m' @ rest')"
        with left' ne pm show False unfolding no_email_starts_in_def by (metis append.assoc)
      qed
    qed
    with u have gg: "g = g'" and eq: "m @ rest = m' @ rest'" by auto
    have "length m' \<le> length m" using long pm' eq by (simp add: longest_email_def)
    moreover have "length m \<le> length m'" using long' pm eq by (simp add: longest_email_def)
    ultimately have "length m = length m'" by simp
    with eq have mm: "m = m'" and rr: "rest = rest'" by simp_all
    from Cons.IH [OF tl] tl' rr have "ms1 = ms1'" by simp
    with mm c show ?thesis by simp
  qed
qed

lemma extract_leftmost_longest: "leftmost_longest str ms = (ms = extractEmails str)"
proof
  assume "leftmost_longest str ms"
  moreover have "leftmost_longest str (extractEmails str)"
    using email_loop_leftmost_longest [of 0 str] by (simp add: extractEmails_loop)
  ultimately show "ms = extractEmails str" by (rule leftmost_longest_unique)
next
  assume "ms = extractEmails str"
  then show "leftmost_longest str ms"
    using email_loop_leftmost_longest [of 0 str] by (simp add: extractEmails_loop)
qed

text \<open>
  Claim C3, amended. For every text, \<open>extractEmails\<close> returns exactly the
  leftmost-longest cut of the text into e-mails: each match starts at the first position
  after the match before it where an e-mail starts, and is the longest e-mail that starts
  there; no other list of matches is such a cut. The matches have the e-mail shape and
  stand in the text unmodified, in order and without overlap: the text is the gaps and
  the matches interleaved, and no gap has an e-mail in it. The result is empty exactly
  when the text has no e-mail, and the function is total. A malformed look-alike is not
  rejected as a whole: \<open>a@b@c\<close> yields nothing and \<open>a@b\<close> is in no result, but
  \<open>a@b.co@c\<close> yields \<open>a@b.co\<close>.
\<close>

theorem extract_emails_spec:
  "leftmost_longest str ms = (ms = extractEmails str)
   \<and> list_all email_shape (extractEmails str)
   \<and> (\<exists>gaps. length gaps = Suc (length (extractEmails str)) \<and>
         str = interleave gaps (extractEmails str) \<and>
         list_all (\<lambda>g. \<not> has_email g) gaps)
   \<and> (extractEmails str = []) = (\<not> has_email str)
   \<and> extractEmails ''a@b@c'' = []
   \<and> extractEmails ''a@b.co@c'' = [''a@b.co'']
   \<and> ''a@b'' \<notin> set (extractEmails str)"
proof (intro conjI)
  show "leftmost_longest str ms = (ms = extractEmails str)" by (rule extract_leftmost_longest)
  show "list_all email_shape (extractEmails str)" using extract_props [of str] by simp
  show "\<exists>gaps. length gaps = Suc (length (extractEmails str)) \<and>
         str = interleave gaps (extractEmails str) \<and>
         list_all (\<lambda>g. \<not> has_email g) gaps"
    using extract_props [of str] by simp
  show "(extractEmails str = []) = (\<not> has_email str)" by (rule extract_empty_iff)
  show "extractEmails ''a@b@c'' = []" by (simp add: email_eval)
  show "extractEmails ''a@b.co@c'' = [''a@b.co'']" by (simp add: email_eval)
  show "''a@b'' \<notin> set (extractEmails str)"
    using extract_props [of str] no_shape_a_b by (auto simp: list_all_iff)
qed

lemma shape_one_at:
  assumes "email_shape w"
  shows "length (filter (\<lambda>c. c = CHR ''@'') w) = 1"
proof -
  from assms obtain l d t where w: "w = l @ ''@'' @ d @ ''.'' @ t"
    and l: "list_all (in_class False local_class) l"
    and d: "list_all (in_class False domain_class) d"
    and t: "list_all (in_class False alpha_class) t"
    unfolding email_shape_def by blast
  have nl: "\<not> in_class False local_class CHR ''@''" by (simp add: class_eval char_eq_def)
  have nd: "\<not> in_class False domain_class CHR ''@''" by (simp add: class_eval char_eq_def)
  have nt: "\<not> in_class False alpha_class CHR ''@''" by (simp add: class_eval char_eq_def)
  have "filter (\<lambda>c. c = CHR ''@'') l = []"
    using l nl by (auto simp: filter_empty_conv list_all_iff)
  moreover have "filter (\<lambda>c. c = CHR ''@'') d = []"
    using d nd by (auto simp: filter_empty_conv list_all_iff)
  moreover have "filter (\<lambda>c. c = CHR ''@'') t = []"
    using t nt by (auto simp: filter_empty_conv list_all_iff)
  ultimately show ?thesis unfolding w by simp
qed

text \<open>
  Claim C3 as stated fails for look-alikes in general: \<open>a@b.co@c\<close> and
  \<open>john@example.com@evil\<close> do not have the e-mail shape, and their e-mail-shaped
  beginnings are extracted from them.
\<close>

theorem lookalike_extracted:
  "\<not> email_shape ''a@b.co@c''
   \<and> extractEmails ''a@b.co@c'' = [''a@b.co'']
   \<and> \<not> email_shape ''john@example.com@evil''
   \<and> extractEmails ''john@example.com@evil'' = [''john@example.com'']"
proof -
  have "\<not> email_shape ''a@b.co@c''" using shape_one_at [of "''a@b.co@c''"] by auto
  moreover have "\<not> email_shape ''john@example.com@evil''"
    using shape_one_at [of "''john@example.com@evil''"] by auto
  ultimately show ?thesis by (simp add: email_eval)
qed

text \<open>
  A text with one e-mail and one look-alike; a truncated match is not the cut.
\<close>

theorem extract_emails_spec_witness:
  "extractEmails ''mail a.b@c.de, x@y now'' = [''a.b@c.de'']
   \<and> leftmost_longest ''mail a.b@c.de, x@y now'' [''a.b@c.de'']
   \<and> email_shape ''a.b@c.de''
   \<and> has_email ''mail a.b@c.de, x@y now''
   \<and> extractEmails ''ann@mail.example.com'' = [''ann@mail.example.com'']
   \<and> \<not> leftmost_longest ''ann@mail.example.com'' [''nn@mail.ex'']"
proof -
  have e: "extractEmails ''mail a.b@c.de, x@y now'' = [''a.b@c.de'']"
    by (simp add: email_eval)
  have f: "extractEmails ''ann@mail.example.com'' = [''ann@mail.example.com'']"
    by (simp add: email_eval)
  show ?thesis
    using extract_emails_spec [of "''mail a.b@c.de, x@y now''" "[''a.b@c.de'']"]
      extract_emails_spec [of "''ann@mail.example.com''" "[''nn@mail.ex'']"]
    unfolding e f by simp
qed

subsection \<open>Username extraction\<close>

lemma lit_match_iff: "(length w = length l \<and> lit_match ci l w) = list_all2 (char_eq ci) l w"
  by (induction ci l w rule: lit_match.induct) auto

lemma lit_match_same: "list_all2 (char_eq ci) l w \<Longrightarrow> lit_match ci l (w @ s) \<and> length w = length l"
  using lit_match_iff [of w l ci] by (auto intro: lit_match_append)

lemma m_Lit:
  "list_all2 (char_eq ci) l w \<Longrightarrow>
     m_items ci (Lit l # its) (w @ s) = map_option ((#) w) (m_items ci its s)"
  using lit_match_same [of ci l w s] by simp

lemma m_Opt_take:
  "list_all2 (char_eq ci) l w \<Longrightarrow> m_items ci its s = Some ps \<Longrightarrow>
     m_items ci (Opt l # its) (w @ s) = Some (w # ps)"
  using lit_match_same [of ci l w s] by simp

lemma m_Opt_skip:
  "\<not> lit_match ci l s \<Longrightarrow> m_items ci (Opt l # its) s = map_option ((#) []) (m_items ci its s)"
  by simp

lemma first_some_counts: "n \<le> k \<Longrightarrow> f k = Some y \<Longrightarrow> first_some f (counts n k) = Some y"
  by (cases k) auto

lemma m_Rep_last:
  "n \<le> run_len ci rs s \<Longrightarrow> m_items ci [Rep rs n] s = Some [take (run_len ci rs s) s]"
  by (simp add: first_some_counts)

lemma run_len_exact:
  "list_all (in_class ci rs) w \<Longrightarrow> rest = [] \<or> \<not> in_class ci rs (hd rest) \<Longrightarrow>
     run_len ci rs (w @ rest) = length w"
proof (induction w)
  case Nil
  then show ?case by (cases rest) auto
next
  case (Cons c w)
  then show ?case by simp
qed

lemma in_class_ci: "in_class False rs c \<Longrightarrow> in_class True rs c"
  by (simp add: in_class_def)

lemmas char_eval = char_eq_def code_def to_upper_def to_lower_def in_class_def in_range_def user_class_def

lemma user_tail:
  assumes "is_username user" and "rest = [] \<or> (\<exists>r. rest = CHR ''/'' # r)"
  shows "m_items True [Rep user_class 1] (user @ rest) = Some [user]"
proof -
  have u: "list_all (in_class True user_class) user"
    using assms(1) by (auto simp: is_username_def list_all_iff intro: in_class_ci)
  have "\<not> in_class True user_class CHR ''/''" by (simp add: char_eval)
  with assms(2) have "rest = [] \<or> \<not> in_class True user_class (hd rest)" by auto
  with u have r: "run_len True user_class (user @ rest) = length user" by (rule run_len_exact)
  have "1 \<le> length user" using assms(1) by (cases user) (auto simp: is_username_def)
  with r m_Rep_last [of 1 True user_class "user @ rest"] show ?thesis by simp
qed

lemma host_tail:
  assumes "same_ignoring_case ''github.com'' host"
    and "m_items True [Rep user_class 1] s = Some [user]"
  shows "m_items True [Lit ''github.com/'', Rep user_class 1] (host @ ''/'' @ s)
           = Some [host @ ''/'', user]"
proof -
  have "list_all2 (char_eq True) (''github.com'' @ ''/'') (host @ ''/'')"
    using assms(1) unfolding same_ignoring_case_def
    by (intro list_all2_appendI) (simp_all add: char_eq_def)
  then have "list_all2 (char_eq True) ''github.com/'' (host @ ''/'')" by simp
  from m_Lit [OF this, of "[Rep user_class 1]" s] show ?thesis using assms(2) by simp
qed

lemma www_tail:
  assumes "www = [] \<or> same_ignoring_case ''www.'' www"
    and h: "same_ignoring_case ''github.com'' host"
    and t: "m_items True [Lit ''github.com/'', Rep user_class 1] (host @ s) = Some ps"
  shows "m_items True [Opt ''www.'', Lit ''github.com/'', Rep user_class 1] (www @ host @ s)
           = Some (www # ps)"
proof (cases "www = []")
  case True
  from h obtain g h' where host: "host = g # h'" and g: "char_eq True CHR ''g'' g"
    by (auto simp: same_ignoring_case_def list_all2_Cons1)
  have "\<not> char_eq True CHR ''w'' g" using g by (auto simp: char_eval split: if_splits)
  then have "\<not> lit_match True ''www.'' (host @ s)" by (simp add: host)
  from m_Opt_skip [OF this] show ?thesis using t True by simp
next
  case False
  with assms(1) have "list_all2 (char_eq True) ''www.'' www" by (simp add: same_ignoring_case_def)
  from m_Opt_take [OF this t] show ?thesis .
qed

lemma scheme_tail:
  assumes sc: "same_ignoring_case ''http'' scheme \<or> same_ignoring_case ''https'' scheme"
    and t: "m_items True [Opt ''www.'', Lit ''github.com/'', Rep user_class 1] s = Some ps"
  shows "\<exists>p1 p2. m_items True (items githubUrlRegex) (scheme @ ''://'' @ s)
           = Some (p1 # p2 # ''://'' # ps)"
proof -
  have sl: "list_all2 (char_eq True) ''://'' ''://''" by (simp add: char_eq_def)
  have t3: "m_items True [Lit ''://'', Opt ''www.'', Lit ''github.com/'', Rep user_class 1]
              (''://'' @ s) = Some (''://'' # ps)"
    using m_Lit [OF sl, of "[Opt ''www.'', Lit ''github.com/'', Rep user_class 1]" s] t by simp
  from sc show ?thesis
  proof
    assume "same_ignoring_case ''http'' scheme"
    then have h: "list_all2 (char_eq True) ''http'' scheme" by (simp add: same_ignoring_case_def)
    have "\<not> lit_match True ''s'' (''://'' @ s)" by (simp add: char_eval)
    from m_Opt_skip [OF this]
    have "m_items True [Opt ''s'', Lit ''://'', Opt ''www.'', Lit ''github.com/'', Rep user_class 1]
            (''://'' @ s) = Some ([] # ''://'' # ps)"
      using t3 by simp
    with m_Lit [OF h, of "[Opt ''s'', Lit ''://'', Opt ''www.'', Lit ''github.com/'', Rep user_class 1]"
        "''://'' @ s"]
    have "m_items True (items githubUrlRegex) (scheme @ ''://'' @ s)
            = Some (scheme # [] # ''://'' # ps)"
      by (simp add: githubUrlRegex_def)
    then show ?thesis by blast
  next
    assume "same_ignoring_case ''https'' scheme"
    then have "list_all2 (char_eq True) (''http'' @ ''s'') scheme"
      by (simp add: same_ignoring_case_def)
    then obtain h4 s1 where sch: "scheme = h4 @ s1"
      and h: "list_all2 (char_eq True) ''http'' h4" and s1: "list_all2 (char_eq True) ''s'' s1"
      unfolding list_all2_append1 by blast
    from m_Opt_take [OF s1 t3]
    have "m_items True [Opt ''s'', Lit ''://'', Opt ''www.'', Lit ''github.com/'', Rep user_class 1]
            (s1 @ ''://'' @ s) = Some (s1 # ''://'' # ps)" .
    with m_Lit [OF h, of "[Opt ''s'', Lit ''://'', Opt ''www.'', Lit ''github.com/'', Rep user_class 1]"
        "s1 @ ''://'' @ s"]
    have "m_items True (items githubUrlRegex) (scheme @ ''://'' @ s)
            = Some (h4 # s1 # ''://'' # ps)"
      by (simp add: githubUrlRegex_def sch)
    then show ?thesis by blast
  qed
qed

lemma github_url_match:
  assumes "github_url_parts scheme www host user"
    and "rest = [] \<or> (\<exists>r. rest = CHR ''/'' # r)"
  shows "\<exists>p1 p2. m_items True (items githubUrlRegex)
            (scheme @ ''://'' @ www @ host @ ''/'' @ user @ rest)
           = Some [p1, p2, ''://'', www, host @ ''/'', user]"
proof -
  from assms(1) have sc: "same_ignoring_case ''http'' scheme \<or> same_ignoring_case ''https'' scheme"
    and w: "www = [] \<or> same_ignoring_case ''www.'' www"
    and h: "same_ignoring_case ''github.com'' host" and u: "is_username user"
    by (simp_all add: github_url_parts_def)
  note t0 = user_tail [OF u assms(2)]
  note t1 = host_tail [OF h t0]
  from www_tail [OF w h, of "''/'' @ user @ rest"] t1
  have t2: "m_items True [Opt ''www.'', Lit ''github.com/'', Rep user_class 1]
              (www @ host @ ''/'' @ user @ rest) = Some [www, host @ ''/'', user]"
    by simp
  from scheme_tail [OF sc t2] show ?thesis by simp
qed

lemma scheme_nonempty:
  "same_ignoring_case ''http'' scheme \<or> same_ignoring_case ''https'' scheme \<Longrightarrow> scheme \<noteq> []"
  by (auto simp: same_ignoring_case_def)

lemma extract_github_url:
  assumes "github_url_parts scheme www host user"
    and "rest = [] \<or> (\<exists>r. rest = CHR ''/'' # r)"
  shows "fst (extractGitHubUsername li (Some (scheme @ ''://'' @ www @ host @ ''/'' @ user @ rest)))
           = Some user"
proof -
  let ?url = "scheme @ ''://'' @ www @ host @ ''/'' @ user @ rest"
  from github_url_match [OF assms] obtain p1 p2 where
    m: "m_items True (items githubUrlRegex) ?url = Some [p1, p2, ''://'', www, host @ ''/'', user]"
    by blast
  have "scheme \<noteq> []" using assms(1) by (auto simp: github_url_parts_def same_ignoring_case_def)
  then obtain c s where url: "?url = c # s" by (cases scheme) auto
  have ci: "ignoreCase githubUrlRegex = True" by (simp add: githubUrlRegex_def)
  have "scan githubUrlRegex ?url 0
          = Some \<lparr>index = 0, pieces = [p1, p2, ''://'', www, host @ ''/'', user]\<rparr>"
    using m unfolding url by (simp add: ci)
  then have "\<exists>e. regexp_exec githubUrlRegex 0 ?url
          = (Some \<lparr>index = 0, pieces = [p1, p2, ''://'', www, host @ ''/'', user]\<rparr>, e)"
    by (simp add: regexp_exec_def)
  moreover have "user \<noteq> []" using assms(1) by (simp add: github_url_parts_def is_username_def)
  moreover have "truthy (Some ?url)" unfolding url by (simp add: truthy_def)
  ultimately show ?thesis
    by (auto simp: extractGitHubUsername_def group1_def)
qed

lemma char_eq_colon: "char_eq True CHR '':'' c \<Longrightarrow> c = CHR '':''"
proof -
  assume "char_eq True CHR '':'' c"
  then have "(of_char c :: nat) = of_char CHR '':''"
    by (auto simp: char_eq_def code_def to_upper_def split: if_splits)
  then show ?thesis by (simp only: of_char_eq_iff)
qed

lemma char_eq_slash: "char_eq True CHR ''/'' c \<Longrightarrow> c = CHR ''/''"
proof -
  assume "char_eq True CHR ''/'' c"
  then have "(of_char c :: nat) = of_char CHR ''/''"
    by (auto simp: char_eq_def code_def to_upper_def split: if_splits)
  then show ?thesis by (simp only: of_char_eq_iff)
qed

lemma user_class_closed: "in_class True user_class c \<Longrightarrow> in_class False user_class c"
  by (auto simp: char_eval split: if_splits)

lemma item_lang_Lit: "item_lang ci (Lit l) w = list_all2 (char_eq ci) l w"
  using lit_match_iff [of w l ci] by simp

lemma item_lang_Opt: "item_lang ci (Opt l) w = (w = [] \<or> list_all2 (char_eq ci) l w)"
  using lit_match_iff [of w l ci] by simp

lemma github_pieces:
  assumes "list_all2 (item_lang True) (items githubUrlRegex) ps"
  shows "\<exists>scheme www host user.
           concat ps = scheme @ ''://'' @ www @ host @ ''/'' @ user \<and>
           github_url_parts scheme www host user \<and> drop 5 ps = [user]"
proof -
  from assms obtain p1 p2 p3 p4 p5 p6 where ps: "ps = [p1, p2, p3, p4, p5, p6]"
    and i1: "item_lang True (Lit ''http'') p1" and i2: "item_lang True (Opt ''s'') p2"
    and i3: "item_lang True (Lit ''://'') p3" and i4: "item_lang True (Opt ''www.'') p4"
    and i5: "item_lang True (Lit ''github.com/'') p5" and i6: "item_lang True (Rep user_class 1) p6"
    by (auto simp: githubUrlRegex_def list_all2_Cons1 simp del: item_lang.simps)
  have h: "list_all2 (char_eq True) ''http'' p1" using i1 by (simp only: item_lang_Lit)
  have s: "p2 = [] \<or> list_all2 (char_eq True) ''s'' p2" using i2 by (simp only: item_lang_Opt)
  have "list_all2 (char_eq True) ''://'' p3" using i3 by (simp only: item_lang_Lit)
  then have p3: "p3 = ''://''"
    by (auto simp: list_all2_Cons1 dest: char_eq_colon char_eq_slash)
  have w: "p4 = [] \<or> same_ignoring_case ''www.'' p4"
    using i4 by (simp only: item_lang_Opt same_ignoring_case_def)
  have "list_all2 (char_eq True) ''github.com/'' p5" using i5 by (simp only: item_lang_Lit)
  then have "list_all2 (char_eq True) (''github.com'' @ ''/'') p5" by simp
  then obtain host sl where p5: "p5 = host @ sl"
    and host: "list_all2 (char_eq True) ''github.com'' host"
    and sl: "list_all2 (char_eq True) ''/'' sl"
    unfolding list_all2_append1 by blast
  from sl have sl': "sl = ''/''" by (auto simp: list_all2_Cons1 dest: char_eq_slash)
  have u: "is_username p6"
    using i6 by (cases p6) (auto simp: is_username_def list_all_iff intro: user_class_closed)
  have sc: "same_ignoring_case ''http'' (p1 @ p2) \<or> same_ignoring_case ''https'' (p1 @ p2)"
  proof (cases "p2 = []")
    case True
    then show ?thesis using h by (simp add: same_ignoring_case_def)
  next
    case False
    with s have "list_all2 (char_eq True) ''s'' p2" by simp
    with h have "list_all2 (char_eq True) (''http'' @ ''s'') (p1 @ p2)" by (rule list_all2_appendI)
    then show ?thesis by (simp add: same_ignoring_case_def)
  qed
  have "concat ps = (p1 @ p2) @ ''://'' @ p4 @ host @ ''/'' @ p6"
    by (simp add: ps p3 p5 sl')
  moreover have "github_url_parts (p1 @ p2) p4 host p6"
    using sc w host u by (simp add: github_url_parts_def same_ignoring_case_def)
  moreover have "drop 5 ps = [p6]" by (simp add: ps)
  ultimately show ?thesis by blast
qed

lemma extract_Some_url:
  assumes "fst (extractGitHubUsername li (Some url)) = Some u"
  shows "has_github_url url"
proof -
  from assms obtain m e where ex: "regexp_exec githubUrlRegex 0 url = (Some m, e)"
    by (auto simp: extractGitHubUsername_def split: if_splits prod.splits option.splits)
  then have sc: "scan githubUrlRegex url 0 = Some m"
    by (auto simp: regexp_exec_def split: option.splits)
  from scan_sound [OF sc] obtain pre rest where
    a: "url = pre @ match0 m @ rest"
    and c: "m_items (ignoreCase githubUrlRegex) (items githubUrlRegex) (drop (length pre) url)
              = Some (pieces m)"
    by blast
  have "ignoreCase githubUrlRegex = True" by (simp add: githubUrlRegex_def)
  with m_items_sound [OF c] have "list_all2 (item_lang True) (items githubUrlRegex) (pieces m)"
    by simp
  from github_pieces [OF this] obtain scheme www host user where
    "match0 m = scheme @ ''://'' @ www @ host @ ''/'' @ user"
    and p: "github_url_parts scheme www host user"
    unfolding match0_def by blast
  with a have "url = pre @ scheme @ ''://'' @ www @ host @ ''/'' @ user @ rest" by simp
  with p show ?thesis unfolding has_github_url_def by blast
qed

lemma colon_in_url: "has_github_url url \<Longrightarrow> CHR '':'' \<in> set url"
  by (auto simp: has_github_url_def)

lemma no_scheme_no_url:
  assumes "is_username user"
  shows "\<not> has_github_url (''github.com/'' @ user)"
proof
  assume "has_github_url (''github.com/'' @ user)"
  then have "CHR '':'' \<in> set (''github.com/'' @ user)" by (rule colon_in_url)
  then have "CHR '':'' \<in> set user" by simp
  then have "in_class False user_class CHR '':''"
    using assms by (auto simp: is_username_def list_all_iff)
  then show False by (simp add: char_eval)
qed

text \<open>
  Claim C4. For a URL made of a scheme \<open>http\<close> or \<open>https\<close>, \<open>://\<close>, an optional
  \<open>www.\<close>, the host \<open>github.com\<close> (scheme, \<open>www.\<close> and host in any case), a slash
  and a username, alone or followed by a path, \<open>extractGitHubUsername\<close> returns the
  username. It returns \<open>null\<close> for \<open>github.com/<user>\<close> without a scheme, for
  \<open>null\<close>, \<open>undefined\<close> and the empty string, and for every string that has no
  GitHub URL in it.
\<close>

theorem extract_username_spec:
  "(github_url_parts scheme www host user \<and> (rest = [] \<or> (\<exists>r. rest = CHR ''/'' # r)) \<longrightarrow>
      fst (extractGitHubUsername li (Some (scheme @ ''://'' @ www @ host @ ''/'' @ user @ rest)))
        = Some user)
   \<and> (is_username user \<longrightarrow> fst (extractGitHubUsername li (Some (''github.com/'' @ user))) = None)
   \<and> fst (extractGitHubUsername li None) = None
   \<and> fst (extractGitHubUsername li (Some [])) = None
   \<and> (\<not> has_github_url url \<longrightarrow> fst (extractGitHubUsername li (Some url)) = None)"
proof (intro conjI impI)
  show "fst (extractGitHubUsername li (Some (scheme @ ''://'' @ www @ host @ ''/'' @ user @ rest)))
        = Some user"
    if "github_url_parts scheme www host user \<and> (rest = [] \<or> (\<exists>r. rest = CHR ''/'' # r))"
    using that extract_github_url by blast
  have none: "fst (extractGitHubUsername li (Some v)) = None" if "\<not> has_github_url v" for v
  proof (cases "fst (extractGitHubUsername li (Some v))")
    case None
    then show ?thesis .
  next
    case (Some u)
    from extract_Some_url [OF this] that show ?thesis by simp
  qed
  show "fst (extractGitHubUsername li (Some (''github.com/'' @ user))) = None" if "is_username user"
    using none [OF no_scheme_no_url [OF that]] .
  show "fst (extractGitHubUsername li None) = None"
    by (simp add: extractGitHubUsername_def truthy_def)
  show "fst (extractGitHubUsername li (Some [])) = None"
    by (simp add: extractGitHubUsername_def truthy_def)
  show "fst (extractGitHubUsername li (Some url)) = None" if "\<not> has_github_url url"
    using none [OF that] .
qed

theorem extract_username_spec_witness:
  "github_url_parts ''HTTPS'' ''www.'' ''GitHub.com'' ''octo-cat_1''
   \<and> fst (extractGitHubUsername 9 (Some ''HTTPS://www.GitHub.com/octo-cat_1/repo/blob'')) = Some ''octo-cat_1''
   \<and> is_username ''invalid-url''
   \<and> \<not> has_github_url ''github.com/invalid-url''
   \<and> fst (extractGitHubUsername 9 (Some ''github.com/invalid-url'')) = None"
proof -
  have p: "github_url_parts ''HTTPS'' ''www.'' ''GitHub.com'' ''octo-cat_1''"
    by (simp add: github_url_parts_def same_ignoring_case_def is_username_def char_eval)
  have u: "is_username ''invalid-url''"
    by (simp add: is_username_def char_eval)
  have n: "\<not> has_github_url ''github.com/invalid-url''"
    using no_scheme_no_url [OF u] by simp
  show ?thesis
    using p u n
      extract_username_spec [where scheme = "''HTTPS''" and www = "''www.''" and host = "''GitHub.com''"
        and user = "''octo-cat_1''" and rest = "''/repo/blob''" and li = 9
        and url = "''github.com/invalid-url''"]
    by simp
qed

end
